theory Spec2Isabelle
  imports Main "HOL-Library.Word"
begin

unbundle bit_operations_syntax

section \<open>Calling-convention mapper (sharedRuntime part of nativeInst\_riscv64.hpp)\<close>

text \<open>
  The signature is an array of \<open>BasicType\<close> tags.  The two mappers
  \<open>SharedRuntime::java_calling_convention\<close> and
  \<open>SharedRuntime::c_calling_convention\<close> walk it from left to right with three
  cursors \<open>int_args\<close>, \<open>fp_args\<close> and \<open>stk_args\<close> and write one
  \<open>VMRegPair\<close> per position.  The \<open>assert\<close>s of the source are debug-build checks
  and are not part of the product code; \<open>ShouldNotReachHere()\<close> is a fatal error in
  every build and is the \<open>Inl\<close> branch of the model.
\<close>

datatype BasicType =
    T_BOOLEAN | T_CHAR | T_FLOAT | T_DOUBLE | T_BYTE | T_SHORT | T_INT | T_LONG
  | T_OBJECT | T_ARRAY | T_VOID | T_ADDRESS | T_NARROWOOP | T_METADATA
  | T_NARROWKLASS | T_CONFLICT | T_ILLEGAL

type_synonym Register = nat
type_synonym FloatRegister = nat

text \<open>
  A \<open>VMReg\<close> names one 32-bit half location: the low or high half of an integer
  register, of a floating register, a numbered 4-byte stack slot, or the invalid value.
\<close>

datatype VMReg =
    GPR Register | GPR_H Register
  | FPR FloatRegister | FPR_H FloatRegister
  | StackSlot nat
  | BadReg

record VMRegPair =
  second :: VMReg
  first :: VMReg

datatype vm_error = ShouldNotReachHere

text \<open>
  Modelled from the spec: the shared class \<open>VMRegPair\<close> (vmreg.hpp) is not part of
  the excerpt.  \<open>set1\<close> names a 32-bit value by one half location, \<open>set2\<close> a 64-bit
  value by a location and the half that follows it, \<open>set_bad\<close> marks the placeholder
  half of a long or double.
\<close>

fun next_VMReg :: "VMReg \<Rightarrow> VMReg" where
  "next_VMReg (GPR r) = GPR_H r"
| "next_VMReg (FPR r) = FPR_H r"
| "next_VMReg (StackSlot n) = StackSlot (n + 1)"
| "next_VMReg v = BadReg"

definition set1 :: "VMReg \<Rightarrow> VMRegPair" where
  "set1 v = \<lparr> second = BadReg, first = v \<rparr>"

definition set2 :: "VMReg \<Rightarrow> VMRegPair" where
  "set2 v = \<lparr> second = next_VMReg v, first = v \<rparr>"

definition set_bad :: "VMRegPair" where
  "set_bad = \<lparr> second = BadReg, first = BadReg \<rparr>"

definition stack2reg :: "nat \<Rightarrow> VMReg" where
  "stack2reg n = StackSlot n"

text \<open>The three cursors of the loop.\<close>

record cursors =
  int_args :: nat
  fp_args :: nat
  stk_args :: nat

definition cursors0 :: cursors where
  "cursors0 = \<lparr> int_args = 0, fp_args = 0, stk_args = 0 \<rparr>"

text \<open>
  The argument-register tables \<open>INT_ArgReg\<close> and \<open>FP_ArgReg\<close> are arrays of
  register aliases (\<open>j_rarg0\<close> \dots, \<open>c_farg7\<close>) declared outside the excerpt; they
  are parameters here, and \<open>Argument::n_int_register_parameters\<close> is the length of the
  table, as in the array declarations of the source.
\<close>

text \<open>One iteration of the loop body of \<open>java_calling_convention\<close>.\<close>

fun java_step :: "Register list \<Rightarrow> FloatRegister list \<Rightarrow> BasicType \<Rightarrow> cursors
    \<Rightarrow> vm_error + (VMRegPair \<times> cursors)" where
  "java_step INT_ArgReg FP_ArgReg bt c =
    (if bt = T_BOOLEAN \<or> bt = T_CHAR \<or> bt = T_BYTE \<or> bt = T_SHORT \<or> bt = T_INT then
       (if int_args c < length INT_ArgReg
        then Inr (set1 (GPR (INT_ArgReg ! int_args c)), c\<lparr>int_args := int_args c + 1\<rparr>)
        else Inr (set1 (stack2reg (stk_args c)), c\<lparr>stk_args := stk_args c + 2\<rparr>))
     else if bt = T_VOID then Inr (set_bad, c)
     else if bt = T_LONG \<or> bt = T_OBJECT \<or> bt = T_ARRAY \<or> bt = T_ADDRESS then
       (if int_args c < length INT_ArgReg
        then Inr (set2 (GPR (INT_ArgReg ! int_args c)), c\<lparr>int_args := int_args c + 1\<rparr>)
        else Inr (set2 (stack2reg (stk_args c)), c\<lparr>stk_args := stk_args c + 2\<rparr>))
     else if bt = T_FLOAT then
       (if fp_args c < length FP_ArgReg
        then Inr (set1 (FPR (FP_ArgReg ! fp_args c)), c\<lparr>fp_args := fp_args c + 1\<rparr>)
        else Inr (set1 (stack2reg (stk_args c)), c\<lparr>stk_args := stk_args c + 2\<rparr>))
     else if bt = T_DOUBLE then
       (if fp_args c < length FP_ArgReg
        then Inr (set2 (FPR (FP_ArgReg ! fp_args c)), c\<lparr>fp_args := fp_args c + 1\<rparr>)
        else Inr (set2 (stack2reg (stk_args c)), c\<lparr>stk_args := stk_args c + 2\<rparr>))
     else Inl ShouldNotReachHere)"

text \<open>One iteration of the loop body of \<open>c_calling_convention\<close>.\<close>

fun c_step :: "Register list \<Rightarrow> FloatRegister list \<Rightarrow> BasicType \<Rightarrow> cursors
    \<Rightarrow> vm_error + (VMRegPair \<times> cursors)" where
  "c_step INT_ArgReg FP_ArgReg bt c =
    (if bt = T_BOOLEAN \<or> bt = T_CHAR \<or> bt = T_BYTE \<or> bt = T_SHORT \<or> bt = T_INT then
       (if int_args c < length INT_ArgReg
        then Inr (set1 (GPR (INT_ArgReg ! int_args c)), c\<lparr>int_args := int_args c + 1\<rparr>)
        else Inr (set1 (stack2reg (stk_args c)), c\<lparr>stk_args := stk_args c + 2\<rparr>))
     else if bt = T_LONG \<or> bt = T_OBJECT \<or> bt = T_ARRAY \<or> bt = T_ADDRESS \<or> bt = T_METADATA then
       (if int_args c < length INT_ArgReg
        then Inr (set2 (GPR (INT_ArgReg ! int_args c)), c\<lparr>int_args := int_args c + 1\<rparr>)
        else Inr (set2 (stack2reg (stk_args c)), c\<lparr>stk_args := stk_args c + 2\<rparr>))
     else if bt = T_FLOAT then
       (if fp_args c < length FP_ArgReg
        then Inr (set1 (FPR (FP_ArgReg ! fp_args c)), c\<lparr>fp_args := fp_args c + 1\<rparr>)
        else if int_args c < length INT_ArgReg
        then Inr (set1 (GPR (INT_ArgReg ! int_args c)), c\<lparr>int_args := int_args c + 1\<rparr>)
        else Inr (set1 (stack2reg (stk_args c)), c\<lparr>stk_args := stk_args c + 2\<rparr>))
     else if bt = T_DOUBLE then
       (if fp_args c < length FP_ArgReg
        then Inr (set2 (FPR (FP_ArgReg ! fp_args c)), c\<lparr>fp_args := fp_args c + 1\<rparr>)
        else if int_args c < length INT_ArgReg
        then Inr (set2 (GPR (INT_ArgReg ! int_args c)), c\<lparr>int_args := int_args c + 1\<rparr>)
        else Inr (set2 (stack2reg (stk_args c)), c\<lparr>stk_args := stk_args c + 2\<rparr>))
     else if bt = T_VOID then Inr (set_bad, c)
     else Inl ShouldNotReachHere)"

text \<open>
  The \<open>for\<close> loop over the signature, for either body: it returns the filled
  \<open>regs\<close> array and the cursors after the last position.
\<close>

fun cc_loop :: "(BasicType \<Rightarrow> cursors \<Rightarrow> vm_error + (VMRegPair \<times> cursors))
    \<Rightarrow> BasicType list \<Rightarrow> cursors \<Rightarrow> vm_error + (VMRegPair list \<times> cursors)" where
  "cc_loop step [] c = Inr ([], c)"
| "cc_loop step (bt # sig_bt) c =
    (case step bt c of
       Inl e \<Rightarrow> Inl e
     | Inr (r, c') \<Rightarrow>
        (case cc_loop step sig_bt c' of
           Inl e \<Rightarrow> Inl e
         | Inr (regs, c'') \<Rightarrow> Inr (r # regs, c'')))"

definition align_up :: "nat \<Rightarrow> nat \<Rightarrow> nat" where
  "align_up n a = ((n + a - 1) div a) * a"

definition java_calling_convention :: "Register list \<Rightarrow> FloatRegister list
    \<Rightarrow> BasicType list \<Rightarrow> vm_error + (VMRegPair list \<times> nat)" where
  "java_calling_convention INT_ArgReg FP_ArgReg sig_bt =
    (case cc_loop (java_step INT_ArgReg FP_ArgReg) sig_bt cursors0 of
       Inl e \<Rightarrow> Inl e
     | Inr (regs, c) \<Rightarrow> Inr (regs, align_up (stk_args c) 2))"

definition c_calling_convention :: "Register list \<Rightarrow> FloatRegister list
    \<Rightarrow> BasicType list \<Rightarrow> vm_error + (VMRegPair list \<times> nat)" where
  "c_calling_convention INT_ArgReg FP_ArgReg sig_bt =
    (case cc_loop (c_step INT_ArgReg FP_ArgReg) sig_bt cursors0 of
       Inl e \<Rightarrow> Inl e
     | Inr (regs, c) \<Rightarrow> Inr (regs, stk_args c))"

text \<open>A half location that lies in an integer register.\<close>

fun is_int_reg :: "VMReg \<Rightarrow> bool" where
  "is_int_reg (GPR r) = True"
| "is_int_reg (GPR_H r) = True"
| "is_int_reg v = False"

fun is_stack :: "VMReg \<Rightarrow> bool" where
  "is_stack (StackSlot n) = True"
| "is_stack v = False"

text \<open>
  The register tables of the RISC-V port, by register number, for concrete evaluation:
  \<open>c_rarg0..7\<close> are \<open>x10..x17\<close>, the Java table is the C table rotated by one,
  and both conventions use \<open>f10..f17\<close>.
\<close>

definition c_int_table :: "Register list" where
  "c_int_table = [10, 11, 12, 13, 14, 15, 16, 17]"

definition j_int_table :: "Register list" where
  "j_int_table = [11, 12, 13, 14, 15, 16, 17, 10]"

definition fp_table :: "FloatRegister list" where
  "fp_table = [10, 11, 12, 13, 14, 15, 16, 17]"

text \<open>
  Vocabulary of the properties, over the signature alone.  A floating argument is a
  \<open>T_FLOAT\<close> or \<open>T_DOUBLE\<close>; an integer-class argument is one of the tags that the
  convention passes in integer registers.  \<open>fp_before sig_bt i\<close> is the number of
  floating arguments among the positions before \<open>i\<close>, and \<open>c_int_before\<close> and
  \<open>java_int_before\<close> the number of integer-class arguments there.
\<close>

definition is_fp_type :: "BasicType \<Rightarrow> bool" where
  "is_fp_type bt = (bt = T_FLOAT \<or> bt = T_DOUBLE)"

definition is_java_int_type :: "BasicType \<Rightarrow> bool" where
  "is_java_int_type bt =
     (bt = T_BOOLEAN \<or> bt = T_CHAR \<or> bt = T_BYTE \<or> bt = T_SHORT \<or> bt = T_INT
      \<or> bt = T_LONG \<or> bt = T_OBJECT \<or> bt = T_ARRAY \<or> bt = T_ADDRESS)"

definition is_c_int_type :: "BasicType \<Rightarrow> bool" where
  "is_c_int_type bt = (is_java_int_type bt \<or> bt = T_METADATA)"

definition fp_before :: "BasicType list \<Rightarrow> nat \<Rightarrow> nat" where
  "fp_before sig_bt i = length (filter is_fp_type (take i sig_bt))"

definition c_int_before :: "BasicType list \<Rightarrow> nat \<Rightarrow> nat" where
  "c_int_before sig_bt i = length (filter is_c_int_type (take i sig_bt))"

definition java_int_before :: "BasicType list \<Rightarrow> nat \<Rightarrow> nat" where
  "java_int_before sig_bt i = length (filter is_java_int_type (take i sig_bt))"

text \<open>
  The signatures each mapper accepts: every other tag is \<open>ShouldNotReachHere()\<close>.
\<close>

definition c_accepts :: "BasicType \<Rightarrow> bool" where
  "c_accepts bt = (is_c_int_type bt \<or> is_fp_type bt \<or> bt = T_VOID)"

definition java_accepts :: "BasicType \<Rightarrow> bool" where
  "java_accepts bt = (is_java_int_type bt \<or> is_fp_type bt \<or> bt = T_VOID)"

text \<open>A signature for evaluation: eight floats, an int, and a ninth float.\<close>

definition sig0 :: "BasicType list" where
  "sig0 = [T_FLOAT, T_FLOAT, T_FLOAT, T_FLOAT, T_FLOAT, T_FLOAT, T_FLOAT, T_FLOAT, T_INT,
           T_FLOAT]"

section \<open>Array copy stubs (stubGenerator\_riscv64.cpp): events\<close>

text \<open>
  The stub generator emits instruction sequences; the models below are the behaviour of
  the emitted instructions.  Every model keeps a trace, in program order, of what the
  emitted code does to the arrays: the loop label control passes (\<open>At\<close>), a load or
  store of so many bytes at an address (\<open>Ld\<close>, \<open>St\<close>), a load or store of one
  oop element (\<open>LoadOop\<close>, \<open>StoreOop\<close>), and the calls of the barrier set's
  \<open>arraycopy_prologue\<close> and \<open>arraycopy_epilogue\<close> with their \<open>is_oop\<close>
  argument.  What a barrier set emits for these two calls is outside the excerpt.  The
  stack traffic of \<open>enter\<close>, \<open>leave\<close>, \<open>push_reg\<close> and \<open>pop_reg\<close> does
  not touch array elements and is left out.
\<close>

type_synonym addr = "64 word"
type_synonym oop = "64 word"
type_synonym oop_heap = "addr \<Rightarrow> oop"

datatype copy_label = L_same_aligned | L_copy8 | L_copy_small

datatype copy_event =
    At copy_label
  | Ld nat addr
  | St nat addr
  | LoadOop addr
  | StoreOop addr oop
  | ArraycopyPrologue bool addr addr "64 word"
  | ArraycopyEpilogue bool addr "64 word"

section \<open>Checkcasting array copy stub\<close>

text \<open>
  For \<open>generate_checkcast_copy\<close> the heap maps the address of an element slot to the
  oop that \<open>load_heap_oop\<close> reads there (\<open>store_heap_oop\<close> writes it); the slot
  size is 4 bytes with compressed oops and 8 bytes without.
\<close>

text \<open>
  \<open>load_klass\<close> and the subtype check (\<open>check_klass_subtype_fast_path\<close> followed by
  \<open>check_klass_subtype_slow_path\<close>) are MacroAssembler routines outside the excerpt:
  they are parameters, the second one a predicate on \<open>sub_klass\<close>,
  \<open>super_check_offset\<close> and \<open>super_klass\<close>.
\<close>

record type_check_env =
  UseCompressedOops :: bool
  load_klass :: "oop \<Rightarrow> 64 word"
  type_check :: "64 word \<Rightarrow> 64 word \<Rightarrow> 64 word \<Rightarrow> bool"

definition heap_oop_size :: "type_check_env \<Rightarrow> 64 word" where
  "heap_oop_size env = (if UseCompressedOops env then 4 else 8)"

text \<open>
  The rotated loop, entered at \<open>L_load_element\<close>: load the element and advance
  \<open>from\<close>; a null element or one that passes the type check goes to
  \<open>L_store_element\<close>, which stores it, advances \<open>to\<close>, decrements \<open>count\<close> and
  leaves the loop for \<open>L_do_card_marks\<close> when \<open>count\<close> has reached zero; a failed
  check falls out of the loop.
\<close>

datatype loop_exit = AllCopied | TypeCheckFailed

function checkcast_loop :: "type_check_env \<Rightarrow> 64 word \<Rightarrow> 64 word \<Rightarrow> addr \<Rightarrow> addr \<Rightarrow> 64 word
    \<Rightarrow> oop_heap \<Rightarrow> copy_event list \<Rightarrow> loop_exit \<times> 64 word \<times> oop_heap \<times> copy_event list" where
  "checkcast_loop env ckoff ckval from to count heap tr =
    (let copied_oop = heap from;
         tr1 = tr @ [LoadOop from];
         from1 = from + heap_oop_size env
     in if copied_oop = 0 \<or> type_check env (load_klass env copied_oop) ckoff ckval
        then (let heap1 = heap(to := copied_oop);
                  tr2 = tr1 @ [StoreOop to copied_oop];
                  to1 = to + heap_oop_size env;
                  count1 = count - 1
              in if count1 = 0 then (AllCopied, count1, heap1, tr2)
                 else checkcast_loop env ckoff ckval from1 to1 count1 heap1 tr2)
        else (TypeCheckFailed, count, heap, tr1))"
  by pat_completeness auto
termination
proof (relation "measure (\<lambda>(env, ckoff, ckval, from, to, count, heap, tr). unat (count - 1))", goal_cases)
  case 1
  show ?case by simp
next
  case (2 env ckoff ckval "from" to count heap tr x xa xb xc xd xe xf)
  then have "count - 1 \<noteq> 0" by simp
  then have "unat (count - 1 - 1) = unat (count - 1) - 1" and "0 < unat (count - 1)"
    by (simp_all only: unat_minus_one unat_gt_0 not_False_eq_True)
  then have "unat (count - 1 - 1) < unat (count - 1)" by arith
  then show ?case using 2 by simp
qed

declare checkcast_loop.simps [simp del]

text \<open>
  The stub: \<open>beqz count, L_done\<close> first; after the loop the failure path computes
  \<open>count_save - count\<close>, flips all bits with \<open>xori count, count, -1\<close> and skips the
  epilogue only if that value is zero; the value returned in \<open>x10\<close> is \<open>count\<close>.
\<close>

definition generate_checkcast_copy :: "type_check_env \<Rightarrow> addr \<Rightarrow> addr \<Rightarrow> 64 word \<Rightarrow> 64 word
    \<Rightarrow> 64 word \<Rightarrow> oop_heap \<Rightarrow> 64 word \<times> oop_heap \<times> copy_event list" where
  "generate_checkcast_copy env from to count ckoff ckval heap =
    (if count = 0 then (count, heap, [])
     else
       (let tr0 = [ArraycopyPrologue True from to count];
            count_save = count;
            start_to = to
        in case checkcast_loop env ckoff ckval from to count heap tr0 of
             (AllCopied, count1, heap1, tr1) \<Rightarrow>
               (count1, heap1, tr1 @ [ArraycopyEpilogue True start_to count_save])
           | (TypeCheckFailed, count1, heap1, tr1) \<Rightarrow>
               (let count2 = (count_save - count1) XOR (- 1)
                in if count2 = 0 then (count2, heap1, tr1)
                   else (count2, heap1, tr1 @ [ArraycopyEpilogue True start_to count_save]))))"

text \<open>
  Vocabulary of the properties: the address of element \<open>i\<close>, whether the element
  stored at an address is accepted by the loop, the heap after the first \<open>K\<close> elements
  went to the destination, the loads and stores of these \<open>K\<close> iterations, and
  disjointness of the first \<open>L\<close> source slots from the first \<open>L\<close> destination slots
  (the stub is generated with the decorator \<open>ARRAYCOPY_DISJOINT\<close>).
\<close>

definition element_passes :: "type_check_env \<Rightarrow> 64 word \<Rightarrow> 64 word \<Rightarrow> oop_heap \<Rightarrow> addr \<Rightarrow> bool" where
  "element_passes env ckoff ckval heap a =
     (heap a = 0 \<or> type_check env (load_klass env (heap a)) ckoff ckval)"

definition elem_addr :: "type_check_env \<Rightarrow> addr \<Rightarrow> nat \<Rightarrow> addr" where
  "elem_addr env base i = base + of_nat i * heap_oop_size env"

definition copy_result :: "type_check_env \<Rightarrow> oop_heap \<Rightarrow> addr \<Rightarrow> addr \<Rightarrow> nat \<Rightarrow> oop_heap" where
  "copy_result env heap from to K =
     (\<lambda>a. if a \<in> set (map (elem_addr env to) [0..<K]) then heap (from + (a - to)) else heap a)"

definition copy_trace :: "type_check_env \<Rightarrow> oop_heap \<Rightarrow> addr \<Rightarrow> addr \<Rightarrow> nat \<Rightarrow> copy_event list" where
  "copy_trace env heap from to K =
     concat (map (\<lambda>i. [LoadOop (elem_addr env from i),
                        StoreOop (elem_addr env to i) (heap (elem_addr env from i))]) [0..<K])"

definition ranges_disjoint :: "type_check_env \<Rightarrow> addr \<Rightarrow> addr \<Rightarrow> nat \<Rightarrow> bool" where
  "ranges_disjoint env from to L =
     (\<forall>i<L. \<forall>j<L. elem_addr env from i \<noteq> elem_addr env to j)"

text \<open>A concrete environment and heap for evaluation.\<close>

definition env0 :: type_check_env where
  "env0 = \<lparr> UseCompressedOops = False, load_klass = (\<lambda>p. p AND 1), type_check = (\<lambda>k off v. k = v) \<rparr>"

definition heap0 :: oop_heap where
  "heap0 = (\<lambda>a. 0)(0x1000 := 2, 0x1008 := 4, 0x1010 := 7)"

section \<open>Bulk copy: \<open>copy_memory\<close> and the disjoint and conjoint stubs\<close>

text \<open>
  Memory is byte addressed.  \<open>load_le\<close> is a little-endian load of \<open>k\<close> bytes,
  zero extended to the 64-bit register (\<open>lbu\<close>, \<open>lhu\<close>, \<open>lwu\<close>, \<open>ld\<close> for
  \<open>k\<close> = 1, 2, 4, 8); \<open>store_le\<close> stores the low \<open>k\<close> bytes of a register
  (\<open>sb\<close>, \<open>sh\<close>, \<open>sw\<close>, \<open>sd\<close>).  Accesses need not be aligned.
\<close>

type_synonym memory = "addr \<Rightarrow> 8 word"

fun load_le :: "memory \<Rightarrow> addr \<Rightarrow> nat \<Rightarrow> 64 word" where
  "load_le m a 0 = 0"
| "load_le m a (Suc k) = ucast (m a) OR push_bit 8 (load_le m (a + 1) k)"

fun store_le :: "memory \<Rightarrow> addr \<Rightarrow> nat \<Rightarrow> 64 word \<Rightarrow> memory" where
  "store_le m a 0 v = m"
| "store_le m a (Suc k) v = store_le (m(a := ucast v)) (a + 1) k (drop_bit 8 v)"

text \<open>
  The \<open>switch (granularity)\<close> of \<open>copy_memory\<close> picks the load/store pair
  \<open>ld_arr\<close>/\<open>st_arr\<close>; any granularity other than 1, 2, 4, 8 is
  \<open>ShouldNotReachHere()\<close> at generation time.
\<close>

datatype copy_insn = Lbu_Sb | Lhu_Sh | Lwu_Sw | Ld_Sd

fun insn_width :: "copy_insn \<Rightarrow> nat" where
  "insn_width Lbu_Sb = 1"
| "insn_width Lhu_Sh = 2"
| "insn_width Lwu_Sw = 4"
| "insn_width Ld_Sd = 8"

text \<open>
  The registers \<open>src\<close> (\<open>x30\<close>), \<open>dst\<close> (\<open>x31\<close>) and \<open>cnt\<close> (\<open>x15\<close>) of
  the emitted code, with the memory and the trace.
\<close>

record copy_regs =
  src :: addr
  dst :: addr
  cnt :: "64 word"
  mem :: memory
  log :: "copy_event list"

text \<open>
  The body shared by the three loops: for a backward copy step the pointers down first,
  load one unit into \<open>tmp3\<close> and store it, for a forward copy step the pointers up
  afterwards, then subtract the unit from \<open>cnt\<close>.  \<open>at_label\<close> records that control
  is at a bound label.
\<close>

definition copy_elem :: "copy_insn \<Rightarrow> copy_regs \<Rightarrow> copy_regs" where
  "copy_elem insn r =
     (let tmp3 = load_le (mem r) (src r) (insn_width insn)
      in r\<lparr>mem := store_le (mem r) (dst r) (insn_width insn) tmp3,
            log := log r @ [Ld (insn_width insn) (src r), St (insn_width insn) (dst r)]\<rparr>)"

definition at_label :: "copy_label \<Rightarrow> copy_regs \<Rightarrow> copy_regs" where
  "at_label lab r = r\<lparr>log := log r @ [At lab]\<rparr>"

definition copy_iter :: "bool \<Rightarrow> copy_insn \<Rightarrow> copy_regs \<Rightarrow> copy_regs" where
  "copy_iter is_backwards insn r =
     (let w = of_nat (insn_width insn);
          r1 = (if is_backwards then r\<lparr>src := src r - w, dst := dst r - w\<rparr> else r);
          r2 = copy_elem insn r1;
          r3 = (if \<not> is_backwards then r2\<lparr>src := src r2 + w, dst := dst r2 + w\<rparr> else r2)
      in r3\<lparr>cnt := cnt r3 - w\<rparr>)"

text \<open>
  \<open>copy_small\<close>: one element per pass, repeated while \<open>cnt\<close> is positive as a
  signed number (\<open>bgtz cnt, copy_small\<close>).
\<close>

function copy_small :: "bool \<Rightarrow> copy_insn \<Rightarrow> copy_regs \<Rightarrow> copy_regs" where
  "copy_small is_backwards insn r =
     (let r' = copy_iter is_backwards insn (at_label L_copy_small r)
      in if 0 <s cnt r' then copy_small is_backwards insn r' else r')"
  by pat_completeness auto
termination
proof (relation "measure (\<lambda>(b, insn, r). if 0 <s cnt r then nat (sint (cnt r)) else 2 ^ 63)",
    goal_cases)
  case 1
  show ?case by simp
next
  case (2 is_backwards insn r r')
  let ?w = "of_nat (insn_width insn) :: 64 word"
  have c: "cnt r' = cnt r - ?w"
    using 2(1) by (simp add: copy_iter_def copy_elem_def at_label_def Let_def)
  have pos: "0 < sint (cnt r - ?w)"
    using 2(2) c by (simp add: word_sless_alt)
  have w: "0 < sint ?w" "sint ?w \<le> 8"
    by (cases insn; simp)+
  have sub: "sint (cnt r - ?w) = signed_take_bit 63 (sint (cnt r) - sint ?w)"
    by (simp add: sint_word_ariths)
  have top: "sint (cnt r - ?w) < 2 ^ 63" "sint (cnt r) < 2 ^ 63"
    using sint_lt [of "cnt r - ?w"] sint_lt [of "cnt r"] by simp_all
  have "sint (cnt r - ?w) < sint (cnt r)" if "0 < sint (cnt r)"
  proof -
    have "signed_take_bit 63 (sint (cnt r) - sint ?w) = sint (cnt r) - sint ?w"
      using that w top by (intro signed_take_bit_int_eq_self) simp_all
    then show ?thesis using w sub by simp
  qed
  then show ?case
    using pos c top by (auto simp: word_sless_alt)
qed

text \<open>
  \<open>copy8\<close>: one 8-byte word per pass (\<open>ld tmp3\<close>, \<open>sd tmp3\<close>), repeated while
  \<open>cnt - 8\<close> is not negative (\<open>addi tmp4, cnt, -8; bgez tmp4, copy8\<close>).
\<close>

function copy8 :: "bool \<Rightarrow> copy_regs \<Rightarrow> copy_regs" where
  "copy8 is_backwards r =
     (let r' = copy_iter is_backwards Ld_Sd (at_label L_copy8 r);
          tmp4 = cnt r' - 8
      in if 0 \<le>s tmp4 then copy8 is_backwards r' else r')"
  by pat_completeness auto
termination
proof (relation "measure (\<lambda>(b, r). if 0 \<le>s cnt r - 16 then nat (sint (cnt r - 16)) + 1 else 0)",
    goal_cases)
  case 1
  show ?case by simp
next
  case (2 is_backwards r r' tmp4)
  have c: "cnt r' = cnt r - 8"
    using 2(1) by (simp add: copy_iter_def copy_elem_def at_label_def Let_def)
  have pos: "0 \<le> sint (cnt r - 16)"
    using 2 c by (simp add: word_sle_eq)
  define x where "x = cnt r - 16"
  have e: "cnt r - 8 - 16 = x - 8" by (simp add: x_def)
  have sub: "sint (x - 8) = signed_take_bit 63 (sint x - 8)"
    by (simp add: sint_word_ariths)
  have top: "sint x < 2 ^ 63"
    using sint_lt [of x] by simp
  have "signed_take_bit 63 (sint x - 8) = sint x - 8"
    using pos top by (intro signed_take_bit_int_eq_self) (simp_all add: x_def)
  then have "sint (cnt r - 8 - 16) < sint (cnt r - 16)"
    unfolding e sub by (simp add: x_def)
  then show ?case
    using pos c by (auto simp: word_sle_eq)
qed

declare copy_small.simps [simp del] copy8.simps [simp del]

text \<open>
  \<open>same_aligned\<close>: while \<open>src\<close> is not 8-byte aligned copy one element; leave for
  \<open>copy8\<close> (result \<open>True\<close>) once it is aligned, or for \<open>done\<close> (result
  \<open>False\<close>) when \<open>cnt\<close> has reached zero.  For an arbitrary register state this loop
  need not end, so it is a partial function and \<open>None\<close> means that it runs forever.
\<close>

partial_function (option) same_aligned :: "bool \<Rightarrow> copy_insn \<Rightarrow> copy_regs \<Rightarrow> (bool \<times> copy_regs) option" where
  "same_aligned is_backwards insn r =
     (let r0 = at_label L_same_aligned r
      in if src r0 AND 7 = 0 then Some (True, r0)
         else (let r' = copy_iter is_backwards insn r0
               in if cnt r' = 0 then Some (False, r') else same_aligned is_backwards insn r'))"

declare same_aligned.simps [code]

text \<open>The generator \<open>copy_memory\<close> and the code it emits.\<close>

fun select_insn :: "nat \<Rightarrow> vm_error + copy_insn" where
  "select_insn granularity =
     (if granularity = 1 then Inr Lbu_Sb
      else if granularity = 2 then Inr Lhu_Sh
      else if granularity = 4 then Inr Lwu_Sw
      else if granularity = 8 then Inr Ld_Sd
      else Inl ShouldNotReachHere)"

fun exact_log2 :: "nat \<Rightarrow> nat" where
  "exact_log2 n = (if n = 1 then 0 else if n = 2 then 1 else if n = 4 then 2 else 3)"

definition after_copy8 :: "bool \<Rightarrow> copy_insn \<Rightarrow> copy_regs \<Rightarrow> copy_regs" where
  "after_copy8 is_backwards insn r =
     (let r' = copy8 is_backwards r
      in if cnt r' = 0 then r' else copy_small is_backwards insn r')"

definition copy_memory_code :: "bool \<Rightarrow> bool \<Rightarrow> copy_insn \<Rightarrow> addr \<Rightarrow> addr \<Rightarrow> 64 word
    \<Rightarrow> memory \<Rightarrow> copy_event list \<Rightarrow> copy_regs option" where
  "copy_memory_code is_aligned is_backwards insn s d count m lg =
     (if count = 0 then Some \<lparr>src = s, dst = d, cnt = 0, mem = m, log = lg\<rparr>
      else
        (let cnt0 = push_bit (exact_log2 (insn_width insn)) count;
             r = (if is_backwards
                  then \<lparr>src = s + cnt0, dst = d + cnt0, cnt = cnt0, mem = m, log = lg\<rparr>
                  else \<lparr>src = s, dst = d, cnt = cnt0, mem = m, log = lg\<rparr>)
         in if is_aligned then
              (if 0 \<le>s cnt0 - 8 then Some (after_copy8 is_backwards insn r)
               else Some (copy_small is_backwards insn r))
            else if cnt0 <s 16 then Some (copy_small is_backwards insn r)
            else if (src r XOR dst r) AND 7 \<noteq> 0 then Some (copy_small is_backwards insn r)
            else (case same_aligned is_backwards insn r of
                    None \<Rightarrow> None
                  | Some (True, r') \<Rightarrow> Some (after_copy8 is_backwards insn r')
                  | Some (False, r') \<Rightarrow> Some r')))"

definition uabs :: "int \<Rightarrow> nat" where
  "uabs n = nat \<bar>n\<bar>"

definition copy_memory :: "bool \<Rightarrow> addr \<Rightarrow> addr \<Rightarrow> 64 word \<Rightarrow> int
    \<Rightarrow> memory \<Rightarrow> copy_event list \<Rightarrow> vm_error + (memory \<times> copy_event list) option" where
  "copy_memory is_aligned s d count step m lg =
     (let is_backwards = step < 0;
          granularity = uabs step
      in case select_insn granularity of
           Inl e \<Rightarrow> Inl e
         | Inr insn \<Rightarrow>
             Inr (map_option (\<lambda>r. (mem r, log r))
                    (copy_memory_code is_aligned is_backwards insn s d count m lg)))"

text \<open>
  \<open>generate_disjoint_copy\<close> and \<open>generate_conjoint_copy\<close>: the conjoint stub
  compares \<open>d - s\<close> with \<open>count << exact_log2(size)\<close> (\<open>bgeu t0, t1\<close>) and
  branches to \<open>nooverlap_target\<close>, which \<open>generate_arraycopy_stubs\<close> sets to the
  entry of the disjoint stub of the same size and alignment flag; otherwise it calls
  \<open>copy_memory\<close> with the negative step.  Both return 0 in \<open>x10\<close>.  The
  \<open>if (VerifyOops) verify_oop_array(...)\<close> branch of both stubs only reads the
  destination and is left out.
\<close>

definition generate_disjoint_copy :: "nat \<Rightarrow> bool \<Rightarrow> bool \<Rightarrow> addr \<Rightarrow> addr \<Rightarrow> 64 word \<Rightarrow> memory
    \<Rightarrow> vm_error + (64 word \<times> memory \<times> copy_event list) option" where
  "generate_disjoint_copy sz aligned is_oop s d count m =
     (case copy_memory aligned s d count (int sz) m [ArraycopyPrologue is_oop s d count] of
        Inl e \<Rightarrow> Inl e
      | Inr None \<Rightarrow> Inr None
      | Inr (Some (m', lg)) \<Rightarrow> Inr (Some (0, m', lg @ [ArraycopyEpilogue is_oop d count])))"

definition generate_conjoint_copy :: "nat \<Rightarrow> bool \<Rightarrow> bool
    \<Rightarrow> (addr \<Rightarrow> addr \<Rightarrow> 64 word \<Rightarrow> memory \<Rightarrow> vm_error + (64 word \<times> memory \<times> copy_event list) option)
    \<Rightarrow> addr \<Rightarrow> addr \<Rightarrow> 64 word \<Rightarrow> memory
    \<Rightarrow> vm_error + (64 word \<times> memory \<times> copy_event list) option" where
  "generate_conjoint_copy sz aligned is_oop nooverlap_target s d count m =
     (let t0 = d - s;
          t1 = push_bit (exact_log2 sz) count
      in if t1 \<le> t0 then nooverlap_target s d count m
         else
           (case copy_memory aligned s d count (- int sz) m [ArraycopyPrologue is_oop s d count] of
              Inl e \<Rightarrow> Inl e
            | Inr None \<Rightarrow> Inr None
            | Inr (Some (m', lg)) \<Rightarrow> Inr (Some (0, m', lg @ [ArraycopyEpilogue is_oop d count]))))"

text \<open>
  Vocabulary of the properties.  \<open>moved m s d N\<close> is the memory \<open>m\<close> in which the
  \<open>N\<close> bytes at \<open>d\<close> hold what \<open>m\<close> had in the \<open>N\<close> bytes at \<open>s\<close>.
  For a loop that walks forwards or backwards (\<open>b\<close>) from a pointer: \<open>lo\<close> is the
  low address of the next \<open>n\<close> bytes, \<open>adv\<close> the pointer after them,
  \<open>start_ptr\<close> the pointer at which a copy of \<open>c\<close> bytes starts, \<open>iter_log\<close> the
  trace of \<open>k\<close> passes of a loop and \<open>fwd_iters\<close> the same for a forward loop,
  written out.  \<open>copy_ok\<close> says when \<open>c\<close> bytes can be copied in the given
  direction without a write reaching a byte that is still to be read.
\<close>

definition moved :: "memory \<Rightarrow> addr \<Rightarrow> addr \<Rightarrow> nat \<Rightarrow> memory" where
  "moved m s d N = (\<lambda>x. if unat (x - d) < N then m (s + (x - d)) else m x)"

definition lo :: "bool \<Rightarrow> addr \<Rightarrow> nat \<Rightarrow> addr" where
  "lo b a n = (if b then a - of_nat n else a)"

definition adv :: "bool \<Rightarrow> addr \<Rightarrow> nat \<Rightarrow> addr" where
  "adv b a n = (if b then a - of_nat n else a + of_nat n)"

fun iter_log :: "copy_label \<Rightarrow> bool \<Rightarrow> nat \<Rightarrow> addr \<Rightarrow> addr \<Rightarrow> nat \<Rightarrow> copy_event list" where
  "iter_log lab b w s d 0 = []"
| "iter_log lab b w s d (Suc k) =
     [At lab, Ld w (lo b s w), St w (lo b d w)] @ iter_log lab b w (adv b s w) (adv b d w) k"

definition copy_ok :: "bool \<Rightarrow> 64 word \<Rightarrow> nat \<Rightarrow> bool" where
  "copy_ok b \<delta> c = (if b then unat \<delta> + c < 2 ^ 64 else (\<delta> = 0 \<or> c \<le> unat \<delta>))"

definition start_ptr :: "bool \<Rightarrow> addr \<Rightarrow> nat \<Rightarrow> addr" where
  "start_ptr b a c = (if b then a + of_nat c else a)"

definition fwd_iters :: "copy_label \<Rightarrow> nat \<Rightarrow> addr \<Rightarrow> addr \<Rightarrow> nat \<Rightarrow> copy_event list" where
  "fwd_iters lab w s d k =
     concat (map (\<lambda>i. [At lab, Ld w (s + of_nat (i * w)), St w (d + of_nat (i * w))]) [0..<k])"

definition stub_log :: "vm_error + (64 word \<times> memory \<times> copy_event list) option \<Rightarrow> copy_event list" where
  "stub_log res = (case res of Inr (Some (x10, m, lg)) \<Rightarrow> lg | _ \<Rightarrow> [])"

definition stub_mem :: "memory \<Rightarrow> vm_error + (64 word \<times> memory \<times> copy_event list) option \<Rightarrow> memory" where
  "stub_mem m0 res = (case res of Inr (Some (x10, m, lg)) \<Rightarrow> m | _ \<Rightarrow> m0)"

definition mem0 :: memory where
  "mem0 = (\<lambda>a. ucast a)"

text \<open>
  The oracle of the specification: a naive copy, element by element, that reads every
  element from the pristine memory.
\<close>

definition oracle_copy :: "memory \<Rightarrow> addr \<Rightarrow> addr \<Rightarrow> nat \<Rightarrow> nat \<Rightarrow> memory" where
  "oracle_copy pristine s d n sz =
     foldl (\<lambda>acc i x.
              if unat (x - (d + of_nat (i * sz))) < sz
              then pristine (s + of_nat (i * sz) + (x - (d + of_nat (i * sz))))
              else acc x)
       pristine [0..<n]"

section \<open>G1 post-write barrier (g1BarrierSetAssembler\_riscv64.cpp)\<close>

text \<open>
  \<open>G1BarrierSetAssembler::g1_write_barrier_post\<close> emits a straight-line sequence
  with forward branches to the labels \<open>done\<close> and \<open>runtime\<close>.  The model runs the
  emitted instructions on the state they touch: the card table (one byte per card), the
  thread's dirty-card queue index and buffer pointer, and the queue buffer.  Every access
  of the emitted code to one of these is recorded in program order.  The constants
  \<open>HeapRegion::LogOfHRGrainBytes\<close>, \<open>CardTable::card_shift\<close>, the card table's
  \<open>byte_map_base\<close> and \<open>G1CardTable::g1_young_card_val\<close> are declared outside the
  excerpt and are parameters; \<open>CardTable::dirty_card_val\<close> is 0 by the assertion in the
  source.
\<close>

datatype g1_event =
    CardLoad addr
  | MembarStoreLoad
  | CardStore addr
  | QueueIndexLoad
  | QueueIndexStore "64 word"
  | BufferLoad
  | LogStore addr addr
  | RuntimeCall addr

record g1_config =
  LogOfHRGrainBytes :: nat
  card_shift :: nat
  byte_map_base :: "64 word"
  g1_young_card_val :: "64 word"

record g1_state =
  card_table :: "addr \<Rightarrow> 8 word"
  queue_index :: "64 word"
  buffer :: "64 word"
  queue_mem :: "addr \<Rightarrow> 64 word"
  g1_trace :: "g1_event list"

definition wordSize :: "64 word" where
  "wordSize = 8"

text \<open>
  The emitted code, instruction by instruction: \<open>xorr\<close>, \<open>srli\<close>, \<open>beqz tmp, done\<close>;
  \<open>beqz new_val, done\<close>; the card address; \<open>lbu\<close> and the comparison with the young
  card value; \<open>membar\<close>, \<open>lbu\<close>, \<open>beqz tmp2, done\<close>; \<open>sb zr\<close>; the queue index
  and either the call of \<open>write_ref_field_post_entry\<close> at \<open>runtime\<close> or the append
  to the buffer.
\<close>

definition g1_write_barrier_post ::
  "g1_config \<Rightarrow> 64 word \<Rightarrow> 64 word \<Rightarrow> g1_state \<Rightarrow> g1_state" where
  "g1_write_barrier_post cfg store_addr new_val st =
     (let tmp = drop_bit (LogOfHRGrainBytes cfg) (store_addr XOR new_val)
      in if tmp = 0 then st
         else if new_val = 0 then st
         else
           (let card_addr = drop_bit (card_shift cfg) store_addr + byte_map_base cfg;
                tmp2 = (ucast (card_table st card_addr) :: 64 word);
                st1 = st\<lparr>g1_trace := g1_trace st @ [CardLoad card_addr]\<rparr>
            in if tmp2 = g1_young_card_val cfg then st1
               else
                 (let st2 = st1\<lparr>g1_trace := g1_trace st1 @ [MembarStoreLoad, CardLoad card_addr]\<rparr>;
                      tmp2 = (ucast (card_table st2 card_addr) :: 64 word)
                  in if tmp2 = 0 then st2
                     else
                       (let st3 = st2\<lparr>card_table := (card_table st2)(card_addr := 0),
                                       g1_trace := g1_trace st2 @ [CardStore card_addr, QueueIndexLoad]\<rparr>;
                            t0 = queue_index st3
                        in if t0 = 0
                           then st3\<lparr>g1_trace := g1_trace st3 @ [RuntimeCall card_addr]\<rparr>
                           else
                             (let t0 = t0 - wordSize;
                                  tmp2 = buffer st3;
                                  slot = tmp2 + t0
                              in st3\<lparr>queue_index := t0,
                                     queue_mem := (queue_mem st3)(slot := card_addr),
                                     g1_trace := g1_trace st3 @
                                       [QueueIndexStore t0, BufferLoad, LogStore slot card_addr]\<rparr>)))))"

text \<open>Two addresses lie in the same heap region: they agree above the region-size log.\<close>

definition same_region :: "g1_config \<Rightarrow> 64 word \<Rightarrow> 64 word \<Rightarrow> bool" where
  "same_region cfg a b =
     (drop_bit (LogOfHRGrainBytes cfg) a = drop_bit (LogOfHRGrainBytes cfg) b)"

text \<open>A configuration and a state for evaluation: 1 MB regions, 512-byte cards.\<close>

definition g1_cfg0 :: g1_config where
  "g1_cfg0 = \<lparr>LogOfHRGrainBytes = 20, card_shift = 9, byte_map_base = 0x1000,
              g1_young_card_val = 2\<rparr>"

definition g1_st0 :: g1_state where
  "g1_st0 = \<lparr>card_table = (\<lambda>a. 1), queue_index = 16, buffer = 0x8000,
             queue_mem = (\<lambda>a. 0), g1_trace = []\<rparr>"

section \<open>Interpreter stack-overflow check (templateInterpreterGenerator\_riscv64.cpp)\<close>

text \<open>
  \<open>generate_stack_overflow_check\<close> computes three constants when the interpreter is
  generated and emits a short sequence with one forward label.  The frame layout
  constants, the page size and the stack element size are declared outside the excerpt and
  are parameters, as is the \<open>ASSERT\<close> build flag.  The C expressions are over
  \<open>int\<close>; \<open>/\<close> truncates towards zero.
\<close>

record so_config =
  interpreter_frame_monitor_size :: int
  interpreter_frame_initial_sp_offset :: int
  vm_page_size :: int
  stackElementSize :: int
  logStackElementSize :: nat
  ASSERT :: bool

definition c_div :: "int \<Rightarrow> int \<Rightarrow> int" where
  "c_div a b = sgn a * sgn b * (\<bar>a\<bar> div \<bar>b\<bar>)"

definition entry_size :: "so_config \<Rightarrow> int" where
  "entry_size cfg = interpreter_frame_monitor_size cfg * uint wordSize"

definition overhead_size :: "so_config \<Rightarrow> int" where
  "overhead_size cfg =
     - (interpreter_frame_initial_sp_offset cfg * uint wordSize) + entry_size cfg"

definition page_threshold :: "so_config \<Rightarrow> int" where
  "page_threshold cfg =
     c_div (vm_page_size cfg - overhead_size cfg) (stackElementSize cfg)"

text \<open>
  The registers the emitted code reads or writes, and what it does besides: the load of
  the thread's \<open>stack_overflow_limit\<close> and the far jump to
  \<open>StubRoutines::throw_StackOverflowError_entry\<close>.  The code leaves through the label
  \<open>after_frame_check\<close>, through the far jump, or (in an \<open>ASSERT\<close> build) through
  \<open>stop\<close>.
\<close>

record so_regs =
  r_x13 :: "64 word"
  r_x30 :: "64 word"
  r_sp :: "64 word"
  r_x10 :: "64 word"
  r_t0 :: "64 word"

datatype so_event = LoadStackLimit | FarJump_throw_StackOverflowError

datatype so_exit = After_frame_check | Throw_StackOverflowError | Stop_limit_is_zero

definition generate_stack_overflow_check ::
  "so_config \<Rightarrow> 64 word \<Rightarrow> so_regs \<Rightarrow> so_exit \<times> so_regs \<times> so_event list" where
  "generate_stack_overflow_check cfg stack_limit regs =
     (let regs = regs\<lparr>r_t0 := of_int (page_threshold cfg)\<rparr>
      in if r_x13 regs \<le> r_t0 regs then (After_frame_check, regs, [])
         else
           (let regs = regs\<lparr>r_x10 := of_int (overhead_size cfg)\<rparr>;
                regs = regs\<lparr>r_t0 := push_bit (logStackElementSize cfg) (r_x13 regs)\<rparr>;
                regs = regs\<lparr>r_x10 := r_x10 regs + r_t0 regs\<rparr>;
                regs = regs\<lparr>r_t0 := stack_limit\<rparr>
            in if ASSERT cfg \<and> r_t0 regs = 0 then (Stop_limit_is_zero, regs, [LoadStackLimit])
               else
                 (let regs = regs\<lparr>r_x10 := r_x10 regs + r_t0 regs\<rparr>
                  in if r_x10 regs < r_sp regs
                     then (After_frame_check, regs, [LoadStackLimit])
                     else (Throw_StackOverflowError,
                           regs\<lparr>r_sp := r_x30 regs AND (- 16)\<rparr>,
                           [LoadStackLimit, FarJump_throw_StackOverflowError]))))"

text \<open>The address the stack pointer is compared with: limit, overhead and locals.\<close>

definition so_bound :: "so_config \<Rightarrow> 64 word \<Rightarrow> 64 word \<Rightarrow> 64 word" where
  "so_bound cfg stack_limit locals =
     of_int (overhead_size cfg) + push_bit (logStackElementSize cfg) locals + stack_limit"

text \<open>A configuration for evaluation: 4K pages, 8-byte stack elements.\<close>

definition so_cfg0 :: so_config where
  "so_cfg0 = \<lparr>interpreter_frame_monitor_size = 2, interpreter_frame_initial_sp_offset = - 10,
              vm_page_size = 4096, stackElementSize = 8, logStackElementSize = 3,
              ASSERT = True\<rparr>"

definition so_regs0 :: "64 word \<Rightarrow> 64 word \<Rightarrow> so_regs" where
  "so_regs0 locals sp = \<lparr>r_x13 = locals, r_x30 = 0x7000FFF8, r_sp = sp, r_x10 = 0, r_t0 = 0\<rparr>"

section \<open>Native-call argument shuffle: \<open>object_move\<close> (sharedRuntime part of nativeInst\_riscv64.hpp)\<close>

text \<open>
  \<open>object_move\<close> emits the code that passes one oop argument of a native method.  The
  model runs the emitted instructions on the integer registers and on byte-addressed memory
  (the stack), and keeps the memory accesses in program order.  The register aliases
  \<open>zr\<close>, \<open>sp\<close>, \<open>fp\<close>, \<open>t0\<close>, \<open>t1\<close>, \<open>j_rarg0\<close> \dots \<open>j_rarg7\<close> and the
  constants \<open>VMRegImpl::stack_slot_size\<close> and \<open>VMRegImpl::slots_per_word\<close> are
  declared outside the excerpt and are parameters.  Register \<open>zr\<close> reads as zero and
  ignores writes.
\<close>

record move_env =
  stack_slot_size :: int
  slots_per_word :: int
  j_rarg :: "nat \<Rightarrow> Register"
  reg_zr :: Register
  reg_sp :: Register
  reg_fp :: Register
  reg_t0 :: Register
  reg_t1 :: Register

datatype move_event = Load8 addr | Store8 addr "64 word"

record move_state =
  xreg :: "Register \<Rightarrow> 64 word"
  stack :: memory
  emitted :: "move_event list"

definition get_reg :: "move_env \<Rightarrow> move_state \<Rightarrow> Register \<Rightarrow> 64 word" where
  "get_reg env st r = (if r = reg_zr env then 0 else xreg st r)"

definition set_reg :: "move_env \<Rightarrow> Register \<Rightarrow> 64 word \<Rightarrow> move_state \<Rightarrow> move_state" where
  "set_reg env r v st = (if r = reg_zr env then st else st\<lparr>xreg := (xreg st)(r := v)\<rparr>)"

text \<open>\<open>Address(base, offset)\<close>: the base register plus the sign-extended offset.\<close>

definition address :: "move_env \<Rightarrow> move_state \<Rightarrow> Register \<Rightarrow> int \<Rightarrow> addr" where
  "address env st base offset = get_reg env st base + of_int offset"

text \<open>The instructions \<open>ld\<close>, \<open>sd\<close>, \<open>la\<close> and \<open>mv\<close>.\<close>

definition ld :: "move_env \<Rightarrow> Register \<Rightarrow> Register \<Rightarrow> int \<Rightarrow> move_state \<Rightarrow> move_state" where
  "ld env rd base offset st =
     (let a = address env st base offset
      in set_reg env rd (load_le (stack st) a 8) (st\<lparr>emitted := emitted st @ [Load8 a]\<rparr>))"

definition sd :: "move_env \<Rightarrow> Register \<Rightarrow> Register \<Rightarrow> int \<Rightarrow> move_state \<Rightarrow> move_state" where
  "sd env rs base offset st =
     (let a = address env st base offset;
          v = get_reg env st rs
      in st\<lparr>stack := store_le (stack st) a 8 v, emitted := emitted st @ [Store8 a v]\<rparr>)"

definition la :: "move_env \<Rightarrow> Register \<Rightarrow> Register \<Rightarrow> int \<Rightarrow> move_state \<Rightarrow> move_state" where
  "la env rd base offset st = set_reg env rd (address env st base offset) st"

definition mv :: "move_env \<Rightarrow> Register \<Rightarrow> Register \<Rightarrow> move_state \<Rightarrow> move_state" where
  "mv env rd rs st = set_reg env rd (get_reg env st rs) st"

text \<open>
  \<open>as_Register\<close> of a half location; its assertion \<open>is_Register()\<close> fails on
  anything but the halves of an integer register, which is \<open>None\<close> here.
\<close>

fun as_Register :: "VMReg \<Rightarrow> Register option" where
  "as_Register (GPR r) = Some r"
| "as_Register (GPR_H r) = Some r"
| "as_Register v = None"

text \<open>
  \<open>reg2offset_in\<close> and \<open>reg2offset_out\<close>, as functions of the stack slot number
  \<open>r->reg2stack()\<close>; \<open>SharedRuntime::out_preserve_stack_slots()\<close> returns 0.
\<close>

definition out_preserve_stack_slots :: int where
  "out_preserve_stack_slots = 0"

definition reg2offset_in :: "move_env \<Rightarrow> nat \<Rightarrow> int" where
  "reg2offset_in env n = (int n + 4) * stack_slot_size env"

definition reg2offset_out :: "move_env \<Rightarrow> nat \<Rightarrow> int" where
  "reg2offset_out env n = (int n + out_preserve_stack_slots) * stack_slot_size env"

text \<open>
  What \<open>object_move\<close> leaves behind: the machine state after the emitted code, the
  location given to \<open>map->set_oop\<close>, and \<open>*receiver_offset\<close>.
\<close>

record move_result =
  final :: move_state
  oop_map_slot :: VMReg
  receiver_offset_out :: int

text \<open>
  The position \<open>oop_slot\<close> of a register source among \<open>j_rarg0\<close> \dots
  \<open>j_rarg7\<close>; the last alternative is taken for every other register (its \<open>assert\<close>
  is a debug-build check).
\<close>

definition oop_slot_of :: "move_env \<Rightarrow> Register \<Rightarrow> int" where
  "oop_slot_of env rOop =
     (if rOop = j_rarg env 0 then 0
      else if rOop = j_rarg env 1 then 1
      else if rOop = j_rarg env 2 then 2
      else if rOop = j_rarg env 3 then 3
      else if rOop = j_rarg env 4 then 4
      else if rOop = j_rarg env 5 then 5
      else if rOop = j_rarg env 6 then 6
      else 7)"

text \<open>The part for an oop that is already on the stack as an argument (slot \<open>n\<close>).\<close>

definition object_move_from_stack ::
  "move_env \<Rightarrow> int \<Rightarrow> nat \<Rightarrow> Register \<Rightarrow> bool \<Rightarrow> int \<Rightarrow> move_state
     \<Rightarrow> move_state \<times> VMReg \<times> int" where
  "object_move_from_stack env framesize_in_slots n rHandle is_receiver receiver_offset st =
     (let offset_in_older_frame = int n + out_preserve_stack_slots;
          slot = stack2reg (nat (offset_in_older_frame + framesize_in_slots));
          receiver_offset =
            (if is_receiver
             then (offset_in_older_frame + framesize_in_slots) * stack_slot_size env
             else receiver_offset);
          st = ld env (reg_t0 env) (reg_fp env) (reg2offset_in env n) st;
          st = la env rHandle (reg_fp env) (reg2offset_in env n) st;
          st = (if get_reg env st (reg_t0 env) \<noteq> 0 then st
                else mv env rHandle (reg_zr env) st)
      in (st, slot, receiver_offset))"

text \<open>The part for an oop in register \<open>rOop\<close>.\<close>

definition object_move_from_reg ::
  "move_env \<Rightarrow> int \<Rightarrow> Register \<Rightarrow> Register \<Rightarrow> bool \<Rightarrow> int \<Rightarrow> move_state
     \<Rightarrow> move_state \<times> VMReg \<times> int" where
  "object_move_from_reg env oop_handle_offset rOop rHandle is_receiver receiver_offset st =
     (let oop_slot = oop_slot_of env rOop;
          oop_slot = oop_slot * slots_per_word env + oop_handle_offset;
          offset = oop_slot * stack_slot_size env;
          slot = stack2reg (nat oop_slot);
          st = sd env rOop (reg_sp env) offset st;
          receiver_offset = (if is_receiver then offset else receiver_offset);
          st = (if rOop = rHandle
                then (if get_reg env st rOop = 0 then st
                      else la env rHandle (reg_sp env) offset st)
                else
                  (let st = la env rHandle (reg_sp env) offset st
                   in if get_reg env st rOop \<noteq> 0 then st
                      else mv env rHandle (reg_zr env) st))
      in (st, slot, receiver_offset))"

definition object_move ::
  "move_env \<Rightarrow> int \<Rightarrow> int \<Rightarrow> VMRegPair \<Rightarrow> VMRegPair \<Rightarrow> bool \<Rightarrow> int \<Rightarrow> move_state
     \<Rightarrow> move_result option" where
  "object_move env oop_handle_offset framesize_in_slots src_pair dst_pair is_receiver
     receiver_offset st =
     (case (if is_stack (first dst_pair) then Some (reg_t1 env)
            else as_Register (first dst_pair)) of
        None \<Rightarrow> None
      | Some rHandle \<Rightarrow>
          (case (case first src_pair of
                   StackSlot n \<Rightarrow>
                     Some (object_move_from_stack env framesize_in_slots n rHandle
                             is_receiver receiver_offset st)
                 | v \<Rightarrow>
                     (case as_Register v of
                        None \<Rightarrow> None
                      | Some rOop \<Rightarrow>
                          Some (object_move_from_reg env oop_handle_offset rOop rHandle
                                  is_receiver receiver_offset st))) of
             None \<Rightarrow> None
           | Some (st, slot, receiver_offset) \<Rightarrow>
               Some \<lparr>final =
                       (case first dst_pair of
                          StackSlot k \<Rightarrow> sd env rHandle (reg_sp env) (reg2offset_out env k) st
                        | v \<Rightarrow> st),
                     oop_map_slot = slot,
                     receiver_offset_out = receiver_offset\<rparr>))"

text \<open>
  The value the callee receives for the argument: the destination register, or the
  outgoing stack slot of the destination.
\<close>

definition passed_value :: "move_env \<Rightarrow> VMRegPair \<Rightarrow> move_state \<Rightarrow> 64 word" where
  "passed_value env dst_pair st =
     (case first dst_pair of
        StackSlot k \<Rightarrow> load_le (stack st) (address env st (reg_sp env) (reg2offset_out env k)) 8
      | v \<Rightarrow> (case as_Register v of Some r \<Rightarrow> get_reg env st r | None \<Rightarrow> 0))"

text \<open>The oop argument before the move, and the address of the slot used as its handle.\<close>

definition source_oop :: "move_env \<Rightarrow> VMRegPair \<Rightarrow> move_state \<Rightarrow> oop" where
  "source_oop env src_pair st =
     (case first src_pair of
        StackSlot n \<Rightarrow> load_le (stack st) (address env st (reg_fp env) (reg2offset_in env n)) 8
      | v \<Rightarrow> (case as_Register v of Some r \<Rightarrow> get_reg env st r | None \<Rightarrow> 0))"

definition handle_slot :: "move_env \<Rightarrow> int \<Rightarrow> VMRegPair \<Rightarrow> move_state \<Rightarrow> addr" where
  "handle_slot env oop_handle_offset src_pair st =
     (case first src_pair of
        StackSlot n \<Rightarrow> address env st (reg_fp env) (reg2offset_in env n)
      | v \<Rightarrow>
          (case as_Register v of
             Some r \<Rightarrow>
               address env st (reg_sp env)
                 ((oop_slot_of env r * slots_per_word env + oop_handle_offset)
                    * stack_slot_size env)
           | None \<Rightarrow> 0))"

definition out_slot :: "move_env \<Rightarrow> VMRegPair \<Rightarrow> move_state \<Rightarrow> addr" where
  "out_slot env dst_pair st =
     (case first dst_pair of
        StackSlot k \<Rightarrow> address env st (reg_sp env) (reg2offset_out env k)
      | v \<Rightarrow> 0)"

text \<open>Two 8-byte slots that do not overlap.\<close>

definition slots_disjoint :: "addr \<Rightarrow> addr \<Rightarrow> bool" where
  "slots_disjoint a b = (8 \<le> unat (a - b) \<and> 8 \<le> unat (b - a))"

text \<open>
  The side conditions on the registers: the five special registers are distinct, and a
  source or destination register is an argument register, none of the five.
\<close>

definition is_arg_location :: "move_env \<Rightarrow> VMReg \<Rightarrow> bool" where
  "is_arg_location env v =
     (case v of
        StackSlot n \<Rightarrow> True
      | GPR r \<Rightarrow> r \<notin> set [reg_zr env, reg_sp env, reg_fp env, reg_t0 env, reg_t1 env]
      | w \<Rightarrow> False)"

definition move_wf :: "move_env \<Rightarrow> VMRegPair \<Rightarrow> VMRegPair \<Rightarrow> bool" where
  "move_wf env src_pair dst_pair =
     (distinct [reg_zr env, reg_sp env, reg_fp env, reg_t0 env, reg_t1 env]
      \<and> is_arg_location env (first src_pair) \<and> is_arg_location env (first dst_pair))"

text \<open>The RISC-V registers and a frame for evaluation.\<close>

definition move_env0 :: move_env where
  "move_env0 = \<lparr>stack_slot_size = 4, slots_per_word = 2, j_rarg = (\<lambda>i. j_int_table ! i),
                reg_zr = 0, reg_sp = 2, reg_fp = 8, reg_t0 = 5, reg_t1 = 6\<rparr>"

definition move_st0 :: move_state where
  "move_st0 = \<lparr>xreg = (\<lambda>r. if r = 2 then 0x7000 else if r = 8 then 0x7100
                          else if r = 12 then 0xABCD00 else 0),
               stack = (\<lambda>a. if a = 0x7118 then 0x42 else 0),
               emitted = []\<rparr>"

section \<open>Interpreter method entry: the emitted code and its control flow\<close>

text \<open>
  \<open>generate_normal_entry\<close> and the generators it calls emit one sequence of
  instructions.  The model below is that sequence, item by item in emission order, each
  item marked with the part of the generator that emitted it.  An item is a single
  instruction, a conditional branch, an unconditional jump, the binding of a label, or one
  of the following.
\<close>

text \<open>
  The helper generators \<open>generate_fixed_frame\<close> and \<open>bang_stack_shadow_pages\<close>
  emit straight-line code, with at most a label of their own; each is one item that
  control enters at the top and leaves at the bottom.
\<close>

text \<open>
  Modelled from the spec: the macros of the macro assembler that are given no label
  (\<open>get_dispatch\<close>, \<open>profile_parameters_type\<close>, \<open>load_mirror\<close>,
  \<open>lock_object\<close>, \<open>notify_method_entry\<close>, \<open>set_method_data_pointer_for_bcp\<close>,
  \<open>get_method\<close>) and \<open>call_VM\<close> are not part of the excerpt.  Each is an item that
  control enters at the top and leaves at the bottom, if it stays in the entry code at
  all: it can bind and use only labels of its own.  After \<open>stop\<close>, the far jump to
  the StackOverflowError stub and \<open>dispatch_next\<close> control is no longer in the entry
  code.
\<close>

datatype entry_label =
    after_frame_check | limit_okay
  | locals_exit | locals_loop
  | assert_L nat
  | no_mdp
  | invocation_counter_overflow | profile_method | profile_method_continue
  | continue_after_compile
  | incr_done | no_mdo
  | lock_done

datatype stage =
    Get_parameter_size
  | Stack_overflow_check
  | Allocate_locals
  | Fixed_frame
  | Check_not_native
  | Set_do_not_unlock
  | Profile_parameters
  | Counter_incr
  | Continue_after_compile
  | Lock_method
  | Check_not_synchronized
  | Start_execution
  | Profile_method_handler
  | Counter_overflow_handler

datatype op =
    Insn string
  | Macro string
  | Branch string entry_label
  | Jump entry_label
  | Bind entry_label
  | Call_VM string
  | Leave string

type_synonym item = "stage \<times> op"

text \<open>
  \<open>generate_stack_overflow_check\<close>, as emitted items: everything up to the far jump,
  and then the binding of \<open>after_frame_check\<close> (``all done with frame size check'').
\<close>

definition stack_overflow_check_body :: "bool \<Rightarrow> item list" where
  "stack_overflow_check_body asserts =
     map (Pair Stack_overflow_check)
       ([Insn ''mv t0, (page_size - overhead_size) / stackElementSize'',
         Branch ''bleu x13, t0'' after_frame_check,
         Insn ''mv x10, overhead_size'',
         Insn ''slli t0, x13, logStackElementSize'',
         Insn ''add x10, x10, t0'',
         Insn ''ld t0, stack_limit'']
        @ (if asserts
           then [Branch ''bnez t0'' limit_okay,
                 Leave ''stop: stack overflow limit is zero'',
                 Bind limit_okay]
           else [])
        @ [Insn ''add x10, x10, t0'',
           Branch ''bgtu sp, x10'' after_frame_check,
           Insn ''andi sp, x30, -16'',
           Leave ''far_jump throw_StackOverflowError_entry''])"

definition generate_stack_overflow_check_code :: "bool \<Rightarrow> item list" where
  "generate_stack_overflow_check_code asserts =
     stack_overflow_check_body asserts @ [(Stack_overflow_check, Bind after_frame_check)]"

text \<open>
  Modelled from the spec: the macros \<open>increment_mask_and_jump\<close>,
  \<open>get_method_counters\<close> and \<open>test_method_data_pointer\<close> of the macro assembler
  are not part of the excerpt.  Each is given one label and is an item that goes on to the
  next item or branches to that label.  With them, \<open>generate_counter_incr\<close> is as
  follows; the entry generator passes a non-null \<open>profile_method\<close>.
\<close>

definition generate_counter_incr_code ::
  "bool \<Rightarrow> bool \<Rightarrow> entry_label \<Rightarrow> entry_label \<Rightarrow> entry_label \<Rightarrow> item list" where
  "generate_counter_incr_code TieredCompilation ProfileInterpreter
     overflow profile_method_label profile_method_continue_label =
     map (Pair Counter_incr)
       (if TieredCompilation
        then
          (if ProfileInterpreter
           then [Insn ''ld x10, method_data'',
                 Branch ''beqz x10'' no_mdo,
                 Branch ''increment_mask_and_jump mdo_invocation_counter'' overflow,
                 Jump incr_done]
           else [])
          @ [Bind no_mdo,
             Branch ''get_method_counters xmethod, t1'' incr_done,
             Branch ''increment_mask_and_jump invocation_counter'' overflow,
             Bind incr_done]
        else
          [Branch ''get_method_counters xmethod, t1'' incr_done]
          @ (if ProfileInterpreter
             then [Insn ''lwu x11, interpreter_invocation_counter'',
                   Insn ''addw x11, x11, 1'',
                   Insn ''sw x11, interpreter_invocation_counter'']
             else [])
          @ [Insn ''lwu x11, invocation_counter'',
             Insn ''lwu x10, backedge_counter'',
             Insn ''addw x11, x11, count_increment'',
             Insn ''andi x10, x10, count_mask_value'',
             Insn ''sw x11, invocation_counter'',
             Insn ''addw x10, x10, x11'']
          @ (if ProfileInterpreter
             then [Insn ''ld t1, method_counters'',
                   Insn ''lwu t1, interpreter_profile_limit'',
                   Branch ''blt x10, t1'' profile_method_continue_label,
                   Branch ''test_method_data_pointer t1'' profile_method_label]
             else [])
          @ [Insn ''ld t1, method_counters'',
             Insn ''lwu t1, interpreter_invocation_limit'',
             Branch ''bltu x10, t1'' incr_done,
             Jump overflow,
             Bind incr_done])"

text \<open>\<open>generate_counter_overflow\<close>.\<close>

definition generate_counter_overflow_code :: "entry_label \<Rightarrow> item list" where
  "generate_counter_overflow_code do_continue =
     map (Pair Counter_overflow_handler)
       [Insn ''mv c_rarg1, zr'',
        Call_VM ''InterpreterRuntime::frequency_counter_overflow'',
        Jump do_continue]"

text \<open>\<open>lock_method\<close>.\<close>

definition lock_method_code :: "bool \<Rightarrow> item list" where
  "lock_method_code asserts =
     map (Pair Lock_method)
       ((if asserts
         then [Insn ''lwu x10, access_flags'',
               Insn ''andi t0, x10, JVM_ACC_SYNCHRONIZED'',
               Branch ''bnez t0'' (assert_L 0),
               Leave ''stop: method doesn't need synchronization'',
               Bind (assert_L 0)]
         else [])
        @ [Insn ''lwu x10, access_flags'',
           Insn ''andi t0, x10, JVM_ACC_STATIC'',
           Insn ''ld x10, local 0'',
           Branch ''beqz t0'' lock_done,
           Macro ''load_mirror x10, xmethod'']
        @ (if asserts
           then [Branch ''bnez x10'' (assert_L 1),
                 Leave ''stop: synchronization object is NULL'',
                 Bind (assert_L 1)]
           else [])
        @ [Bind lock_done,
           Insn ''add sp, sp, -entry_size'',
           Insn ''add esp, esp, -entry_size'',
           Insn ''mv t0, esp'',
           Insn ''sd t0, monitor_block_top'',
           Insn ''sd x10, obj_offset(esp)'',
           Insn ''mv c_rarg1, esp'',
           Macro ''lock_object c_rarg1''])"

text \<open>
  The code \<open>generate_normal_entry\<close> emits itself, part by part in the order of the
  source: the parameter and locals sizes, the allocation and initialisation of the locals,
  the dispatch table and the fixed frame, the debug-build checks of the access flags, the
  \<open>do_not_unlock_if_synchronized\<close> flag, the parameter profiling, the code at
  \<open>continue_after_compile\<close>, the debug-build check of an unsynchronized method, the
  start of execution, and the handler at \<open>profile_method\<close>.
\<close>

definition entry_get_parameter_size :: "item list" where
  "entry_get_parameter_size =
     map (Pair Get_parameter_size)
       [Insn ''ld x13, constMethod'',
        Insn ''load_unsigned_short x12, size_of_parameters'',
        Insn ''load_unsigned_short x13, size_of_locals'',
        Insn ''sub x13, x13, x12'']"

definition entry_allocate_locals :: "item list" where
  "entry_allocate_locals =
     map (Pair Allocate_locals)
       [Insn ''slli t1, x12, 3'',
        Insn ''add xlocals, esp, t1'',
        Insn ''add xlocals, xlocals, -wordSize'',
        Insn ''slli t1, x13, 3'',
        Insn ''sub t0, esp, t1'',
        Insn ''andi sp, t0, -16'',
        Branch ''blez x13'' locals_exit,
        Bind locals_loop,
        Insn ''sd zr, (t0)'',
        Insn ''add t0, t0, wordSize'',
        Insn ''add x13, x13, -1'',
        Branch ''bnez x13'' locals_loop,
        Bind locals_exit]"

definition entry_fixed_frame :: "item list" where
  "entry_fixed_frame =
     map (Pair Fixed_frame)
       [Macro ''get_dispatch'',
        Macro ''generate_fixed_frame(false)'']"

definition entry_check_not_native :: "bool \<Rightarrow> item list" where
  "entry_check_not_native asserts =
     (if asserts
      then map (Pair Check_not_native)
             [Insn ''lwu x10, access_flags'',
              Insn ''andi t0, x10, JVM_ACC_NATIVE'',
              Branch ''beqz t0'' (assert_L 2),
              Leave ''stop: tried to execute native method as non-native'',
              Bind (assert_L 2),
              Insn ''andi t0, x10, JVM_ACC_ABSTRACT'',
              Branch ''beqz t0'' (assert_L 3),
              Leave ''stop: tried to execute abstract method in interpreter'',
              Bind (assert_L 3)]
      else [])"

definition entry_set_do_not_unlock :: "item list" where
  "entry_set_do_not_unlock =
     map (Pair Set_do_not_unlock)
       [Insn ''mv t1, true'',
        Insn ''sb t1, do_not_unlock_if_synchronized'']"

definition entry_profile_parameters :: "item list" where
  "entry_profile_parameters =
     map (Pair Profile_parameters)
       [Insn ''ld mdp, method_data'',
        Branch ''beqz mdp'' no_mdp,
        Insn ''add mdp, mdp, data_offset'',
        Macro ''profile_parameters_type mdp, x11, x12, x14'',
        Bind no_mdp]"

definition entry_continue_after_compile :: "item list" where
  "entry_continue_after_compile =
     map (Pair Continue_after_compile)
       [Bind continue_after_compile,
        Macro ''bang_stack_shadow_pages(false)'',
        Insn ''sb zr, do_not_unlock_if_synchronized'']"

definition entry_check_not_synchronized :: "bool \<Rightarrow> item list" where
  "entry_check_not_synchronized asserts =
     (if asserts
      then map (Pair Check_not_synchronized)
             [Insn ''lwu x10, access_flags'',
              Insn ''andi t0, x10, JVM_ACC_SYNCHRONIZED'',
              Branch ''beqz t0'' (assert_L 4),
              Leave ''stop: method needs synchronization'',
              Bind (assert_L 4)]
      else [])"

definition entry_start_execution :: "bool \<Rightarrow> item list" where
  "entry_start_execution asserts =
     (if asserts
      then map (Pair Start_execution)
             [Insn ''ld t0, monitor_block_top'',
              Branch ''beq esp, t0'' (assert_L 5),
              Leave ''stop: broken stack frame setup in interpreter'',
              Bind (assert_L 5)]
      else [])
     @ map (Pair Start_execution)
         [Macro ''notify_method_entry'',
          Leave ''dispatch_next(vtos)'']"

definition entry_profile_method_handler :: "item list" where
  "entry_profile_method_handler =
     map (Pair Profile_method_handler)
       [Bind profile_method,
        Call_VM ''InterpreterRuntime::profile_method'',
        Macro ''set_method_data_pointer_for_bcp'',
        Macro ''get_method x11'',
        Jump profile_method_continue]"

text \<open>
  The two blocks under \<open>if (inc_counter)\<close>: the counter increment with the binding of
  \<open>profile_method_continue\<close>, and at the end of the entry the handlers bound at
  \<open>profile_method\<close> and \<open>invocation_counter_overflow\<close>.
\<close>

definition entry_increment_invocation_count :: "bool \<Rightarrow> bool \<Rightarrow> bool \<Rightarrow> item list" where
  "entry_increment_invocation_count inc_counter TieredCompilation ProfileInterpreter =
     (if inc_counter
      then generate_counter_incr_code TieredCompilation ProfileInterpreter
             invocation_counter_overflow profile_method profile_method_continue
           @ (if ProfileInterpreter then [(Counter_incr, Bind profile_method_continue)]
              else [])
      else [])"

definition entry_invocation_counter_overflow :: "bool \<Rightarrow> bool \<Rightarrow> item list" where
  "entry_invocation_counter_overflow inc_counter ProfileInterpreter =
     (if inc_counter
      then (if ProfileInterpreter then entry_profile_method_handler else [])
           @ (Counter_overflow_handler, Bind invocation_counter_overflow)
             # generate_counter_overflow_code continue_after_compile
      else [])"

text \<open>
  \<open>generate_normal_entry\<close>, as a function of \<open>inc_counter\<close> and the flags that
  decide what is emitted: its own parts and the generators it calls, in the order of the
  source.
\<close>

definition generate_normal_entry_items ::
  "bool \<Rightarrow> bool \<Rightarrow> bool \<Rightarrow> bool \<Rightarrow> bool \<Rightarrow> item list" where
  "generate_normal_entry_items inc_counter TieredCompilation ProfileInterpreter asserts
     synchronized =
     entry_get_parameter_size
     @ generate_stack_overflow_check_code asserts
     @ entry_allocate_locals
     @ entry_fixed_frame
     @ entry_check_not_native asserts
     @ entry_set_do_not_unlock
     @ entry_profile_parameters
     @ entry_increment_invocation_count inc_counter TieredCompilation ProfileInterpreter
     @ entry_continue_after_compile
     @ (if synchronized then lock_method_code asserts
        else entry_check_not_synchronized asserts)
     @ entry_start_execution asserts
     @ entry_invocation_counter_overflow inc_counter ProfileInterpreter"

text \<open>
  The entry code up to three points of the emission: up to the binding of
  \<open>after_frame_check\<close>, up to the counter increment, and up to \<open>lock_method\<close>.
\<close>

definition entry_to_frame_check :: "bool \<Rightarrow> item list" where
  "entry_to_frame_check asserts = entry_get_parameter_size @ stack_overflow_check_body asserts"

definition entry_to_counter_incr :: "bool \<Rightarrow> item list" where
  "entry_to_counter_incr asserts =
     entry_to_frame_check asserts
     @ (Stack_overflow_check, Bind after_frame_check)
       # entry_allocate_locals
     @ entry_fixed_frame
     @ entry_check_not_native asserts
     @ entry_set_do_not_unlock
     @ entry_profile_parameters"

definition entry_to_lock :: "bool \<Rightarrow> bool \<Rightarrow> bool \<Rightarrow> bool \<Rightarrow> item list" where
  "entry_to_lock inc_counter TieredCompilation ProfileInterpreter asserts =
     entry_to_counter_incr asserts
     @ entry_increment_invocation_count inc_counter TieredCompilation ProfileInterpreter
     @ entry_continue_after_compile"

record entry_flags =
  UseCompiler :: bool
  CountCompiledCalls :: bool
  LogTouchedMethods :: bool
  TieredCompilation_flag :: bool
  ProfileInterpreter_flag :: bool
  ASSERT_build :: bool

definition inc_counter :: "entry_flags \<Rightarrow> bool" where
  "inc_counter flags =
     (UseCompiler flags \<or> CountCompiledCalls flags \<or> LogTouchedMethods flags)"

definition generate_normal_entry_code :: "entry_flags \<Rightarrow> bool \<Rightarrow> item list" where
  "generate_normal_entry_code flags synchronized =
     generate_normal_entry_items (inc_counter flags)
       (TieredCompilation_flag flags) (ProfileInterpreter_flag flags) (ASSERT_build flags)
       synchronized"

text \<open>
  Control flow.  A label stands for the position of its \<open>bind\<close>.  The successors of a
  position are the positions control can be at next while it stays in the entry code.
\<close>

fun bound_at :: "item list \<Rightarrow> entry_label \<Rightarrow> nat option" where
  "bound_at [] l = None"
| "bound_at (it # its) l =
     (if snd it = Bind l then Some 0 else map_option Suc (bound_at its l))"

definition succs :: "item list \<Rightarrow> nat \<Rightarrow> nat list" where
  "succs prog pc =
     (case snd (prog ! pc) of
        Insn s \<Rightarrow> [pc + 1]
      | Macro s \<Rightarrow> [pc + 1]
      | Bind l \<Rightarrow> [pc + 1]
      | Call_VM s \<Rightarrow> [pc + 1]
      | Branch s l \<Rightarrow> (pc + 1) # (case bound_at prog l of Some t \<Rightarrow> [t] | None \<Rightarrow> [])
      | Jump l \<Rightarrow> (case bound_at prog l of Some t \<Rightarrow> [t] | None \<Rightarrow> [])
      | Leave s \<Rightarrow> [])"

text \<open>An execution path: positions inside the code, each a successor of the one before.\<close>

fun is_path :: "item list \<Rightarrow> nat list \<Rightarrow> bool" where
  "is_path prog [] = True"
| "is_path prog [p] = (p < length prog)"
| "is_path prog (p # q # pcs) =
     (p < length prog \<and> q \<in> set (succs prog p) \<and> is_path prog (q # pcs))"

text \<open>
  The labels a piece of code binds and the labels it branches or jumps to, and whether
  control can go from an item to the item emitted next.
\<close>

fun labels_bound :: "item list \<Rightarrow> entry_label list" where
  "labels_bound [] = []"
| "labels_bound (it # its) =
     (case snd it of Bind l \<Rightarrow> l # labels_bound its | v \<Rightarrow> labels_bound its)"

fun labels_used :: "item list \<Rightarrow> entry_label list" where
  "labels_used [] = []"
| "labels_used (it # its) =
     (case snd it of
        Branch s l \<Rightarrow> l # labels_used its
      | Jump l \<Rightarrow> l # labels_used its
      | v \<Rightarrow> labels_used its)"

fun falls_through :: "op \<Rightarrow> bool" where
  "falls_through (Jump l) = False"
| "falls_through (Leave s) = False"
| "falls_through v = True"

text \<open>The parts of the entry code the claim is about.\<close>

definition is_lock :: "item \<Rightarrow> bool" where
  "is_lock it = (fst it = Lock_method)"

definition is_overflow_check :: "item \<Rightarrow> bool" where
  "is_overflow_check it = (fst it = Stack_overflow_check \<or> fst it = Counter_incr)"

definition is_overflow_code :: "item \<Rightarrow> bool" where
  "is_overflow_code it =
     (fst it = Stack_overflow_check \<or> fst it = Counter_incr
      \<or> fst it = Profile_method_handler \<or> fst it = Counter_overflow_handler)"

definition is_counter_incr :: "item \<Rightarrow> bool" where
  "is_counter_incr it = (fst it = Counter_incr)"

text \<open>
  A flag setting for evaluation (a product build with tiered compilation and no
  interpreter profiling), and a path through its synchronized entry: the frame fits in a
  page, there are no additional locals and no method data, the invocation counter
  overflows, and after the overflow handler the method is locked and execution starts.
\<close>

definition flags0 :: entry_flags where
  "flags0 = \<lparr>UseCompiler = True, CountCompiledCalls = False, LogTouchedMethods = False,
             TieredCompilation_flag = True, ProfileInterpreter_flag = False,
             ASSERT_build = False\<rparr>"

definition path0 :: "nat list" where
  "path0 = [0, 1, 2, 3, 4, 5, 14, 15, 16, 17, 18, 19, 20, 21, 27, 28, 29, 30, 31, 32, 33, 36,
            37, 38, 39, 59, 60, 61, 62, 41, 42, 43, 44, 45, 46, 47, 49, 50, 51, 52, 53, 54, 55,
            56, 57, 58]"

section \<open>Properties of the calling-convention mapper\<close>

lemma cc_loop_length:
  "cc_loop step sig_bt c = Inr (regs, c') \<Longrightarrow> length regs = length sig_bt"
  by (induction sig_bt arbitrary: c regs c')
     (auto split: sum.splits prod.splits)

text \<open>
  The pair written at position \<open>i\<close> is the one the loop body computes from the
  cursors left by the positions before \<open>i\<close>.
\<close>

lemma cc_loop_nth:
  "cc_loop step sig_bt c = Inr (regs, c') \<Longrightarrow> i < length sig_bt \<Longrightarrow>
   \<exists>ci cj. cc_loop step (take i sig_bt) c = Inr (take i regs, ci)
         \<and> step (sig_bt ! i) ci = Inr (regs ! i, cj)"
proof (induction sig_bt arbitrary: c regs c' i)
  case Nil
  then show ?case by simp
next
  case (Cons bt sig_bt)
  from Cons.prems(1) obtain r c1 regs1 where
    st: "step bt c = Inr (r, c1)" and
    rest: "cc_loop step sig_bt c1 = Inr (regs1, c')" and
    regs: "regs = r # regs1"
    by (auto split: sum.splits prod.splits)
  show ?case
  proof (cases i)
    case 0
    with st regs show ?thesis by simp
  next
    case (Suc j)
    with Cons.prems(2) have "j < length sig_bt" by simp
    from Cons.IH [OF rest this] obtain ci cj where
      "cc_loop step (take j sig_bt) c1 = Inr (take j regs1, ci)"
      "step (sig_bt ! j) ci = Inr (regs1 ! j, cj)" by blast
    with st regs Suc show ?thesis by simp
  qed
qed

lemma cc_loop_Cons:
  "cc_loop step (bt # p) c0 = Inr (regs, c) \<Longrightarrow>
   \<exists>r c1 regs1. step bt c0 = Inr (r, c1) \<and> cc_loop step p c1 = Inr (regs1, c)"
  by (auto split: sum.splits prod.splits)

text \<open>
  What one pass of either loop body does, by the class of the argument: the location it
  writes and the cursor it advances.
\<close>

lemma c_step_cases:
  assumes "c_step INT_ArgReg FP_ArgReg bt c0 = Inr (r, c1)"
  shows "(is_fp_type bt \<and> \<not> is_c_int_type bt \<and>
            (if fp_args c0 < length FP_ArgReg
             then first r = FPR (FP_ArgReg ! fp_args c0) \<and> c1 = c0\<lparr>fp_args := fp_args c0 + 1\<rparr>
             else if int_args c0 < length INT_ArgReg
             then first r = GPR (INT_ArgReg ! int_args c0)
                  \<and> c1 = c0\<lparr>int_args := int_args c0 + 1\<rparr>
             else first r = StackSlot (stk_args c0) \<and> c1 = c0\<lparr>stk_args := stk_args c0 + 2\<rparr>))
       \<or> (is_c_int_type bt \<and> \<not> is_fp_type bt \<and>
            (if int_args c0 < length INT_ArgReg
             then first r = GPR (INT_ArgReg ! int_args c0)
                  \<and> c1 = c0\<lparr>int_args := int_args c0 + 1\<rparr>
             else first r = StackSlot (stk_args c0) \<and> c1 = c0\<lparr>stk_args := stk_args c0 + 2\<rparr>))
       \<or> (bt = T_VOID \<and> \<not> is_fp_type bt \<and> \<not> is_c_int_type bt \<and> first r = BadReg
            \<and> c1 = c0)"
  using assms
  by (cases bt)
     (auto simp: is_fp_type_def is_c_int_type_def is_java_int_type_def set1_def set2_def
        stack2reg_def set_bad_def split: if_splits)

lemma java_step_cases:
  assumes "java_step INT_ArgReg FP_ArgReg bt c0 = Inr (r, c1)"
  shows "(is_fp_type bt \<and> \<not> is_java_int_type bt \<and>
            \<not> is_int_reg (first r) \<and> \<not> is_int_reg (second r) \<and>
            (if fp_args c0 < length FP_ArgReg
             then first r = FPR (FP_ArgReg ! fp_args c0) \<and> c1 = c0\<lparr>fp_args := fp_args c0 + 1\<rparr>
             else first r = StackSlot (stk_args c0) \<and> c1 = c0\<lparr>stk_args := stk_args c0 + 2\<rparr>))
       \<or> (is_java_int_type bt \<and> \<not> is_fp_type bt \<and>
            (if int_args c0 < length INT_ArgReg
             then first r = GPR (INT_ArgReg ! int_args c0)
                  \<and> c1 = c0\<lparr>int_args := int_args c0 + 1\<rparr>
             else first r = StackSlot (stk_args c0) \<and> c1 = c0\<lparr>stk_args := stk_args c0 + 2\<rparr>))
       \<or> (bt = T_VOID \<and> \<not> is_fp_type bt \<and> \<not> is_java_int_type bt \<and> first r = BadReg
            \<and> c1 = c0)"
  using assms
  by (cases bt)
     (auto simp: is_fp_type_def is_java_int_type_def set1_def set2_def stack2reg_def
        set_bad_def split: if_splits)

lemma c_step_total:
  "c_accepts bt \<Longrightarrow> \<exists>r c1. c_step INT_ArgReg FP_ArgReg bt c0 = Inr (r, c1)"
  by (cases bt)
     (simp_all add: c_accepts_def is_fp_type_def is_c_int_type_def is_java_int_type_def)

lemma java_step_total:
  "java_accepts bt \<Longrightarrow> \<exists>r c1. java_step INT_ArgReg FP_ArgReg bt c0 = Inr (r, c1)"
  by (cases bt)
     (simp_all add: java_accepts_def is_fp_type_def is_java_int_type_def)

text \<open>
  The cursors after a run of the loop, as functions of the signature: the floating
  cursor counts floating arguments up to the table size, the integer cursor counts the
  arguments that ask for an integer register up to the table size, and the stack cursor
  advances by two for every argument that found no register.  In the C convention the
  floating arguments that found no floating register ask for an integer register.
\<close>

lemma c_cursors:
  assumes "cc_loop (c_step INT_ArgReg FP_ArgReg) p c0 = Inr (regs, c)"
    and "fp_args c0 \<le> length FP_ArgReg" "int_args c0 \<le> length INT_ArgReg"
  shows "fp_args c = min (length FP_ArgReg) (fp_args c0 + length (filter is_fp_type p))
    \<and> int_args c = min (length INT_ArgReg)
         (int_args c0 + length (filter is_c_int_type p)
          + (fp_args c0 + length (filter is_fp_type p) - length FP_ArgReg))
    \<and> stk_args c = stk_args c0
         + 2 * (int_args c0 + length (filter is_c_int_type p)
                + (fp_args c0 + length (filter is_fp_type p) - length FP_ArgReg)
                - length INT_ArgReg)"
  using assms
proof (induction p arbitrary: c0 regs c)
  case Nil
  then show ?case by simp
next
  case (Cons bt p)
  from cc_loop_Cons [OF Cons.prems(1)] obtain r c1 regs1 where
    st: "c_step INT_ArgReg FP_ArgReg bt c0 = Inr (r, c1)" and
    rest: "cc_loop (c_step INT_ArgReg FP_ArgReg) p c1 = Inr (regs1, c)"
    by blast
  note cs = c_step_cases [OF st]
  have b: "fp_args c1 \<le> length FP_ArgReg" "int_args c1 \<le> length INT_ArgReg"
    using cs Cons.prems(2,3) by (auto split: if_splits)
  note ih = Cons.IH [OF rest b]
  from cs Cons.prems(2,3) consider
      (f1) "is_fp_type bt" "\<not> is_c_int_type bt" "fp_args c0 < length FP_ArgReg"
           "c1 = c0\<lparr>fp_args := fp_args c0 + 1\<rparr>"
    | (f2) "is_fp_type bt" "\<not> is_c_int_type bt" "fp_args c0 = length FP_ArgReg"
           "int_args c0 < length INT_ArgReg" "c1 = c0\<lparr>int_args := int_args c0 + 1\<rparr>"
    | (f3) "is_fp_type bt" "\<not> is_c_int_type bt" "fp_args c0 = length FP_ArgReg"
           "int_args c0 = length INT_ArgReg" "c1 = c0\<lparr>stk_args := stk_args c0 + 2\<rparr>"
    | (i1) "is_c_int_type bt" "\<not> is_fp_type bt" "int_args c0 < length INT_ArgReg"
           "c1 = c0\<lparr>int_args := int_args c0 + 1\<rparr>"
    | (i2) "is_c_int_type bt" "\<not> is_fp_type bt" "int_args c0 = length INT_ArgReg"
           "c1 = c0\<lparr>stk_args := stk_args c0 + 2\<rparr>"
    | (v) "\<not> is_fp_type bt" "\<not> is_c_int_type bt" "c1 = c0"
    by (auto split: if_splits)
  then show ?case
  proof cases
    case f1 then show ?thesis using ih by simp
  next
    case f2 then show ?thesis using ih by simp
  next
    case f3 then show ?thesis using ih by simp
  next
    case i1 then show ?thesis using ih by simp
  next
    case i2 then show ?thesis using ih by simp
  next
    case v then show ?thesis using ih by simp
  qed
qed

lemma java_cursors:
  assumes "cc_loop (java_step INT_ArgReg FP_ArgReg) p c0 = Inr (regs, c)"
    and "fp_args c0 \<le> length FP_ArgReg" "int_args c0 \<le> length INT_ArgReg"
  shows "fp_args c = min (length FP_ArgReg) (fp_args c0 + length (filter is_fp_type p))
    \<and> int_args c = min (length INT_ArgReg) (int_args c0 + length (filter is_java_int_type p))
    \<and> stk_args c = stk_args c0
         + 2 * ((int_args c0 + length (filter is_java_int_type p) - length INT_ArgReg)
                + (fp_args c0 + length (filter is_fp_type p) - length FP_ArgReg))"
  using assms
proof (induction p arbitrary: c0 regs c)
  case Nil
  then show ?case by simp
next
  case (Cons bt p)
  from cc_loop_Cons [OF Cons.prems(1)] obtain r c1 regs1 where
    st: "java_step INT_ArgReg FP_ArgReg bt c0 = Inr (r, c1)" and
    rest: "cc_loop (java_step INT_ArgReg FP_ArgReg) p c1 = Inr (regs1, c)"
    by blast
  note cs = java_step_cases [OF st]
  have b: "fp_args c1 \<le> length FP_ArgReg" "int_args c1 \<le> length INT_ArgReg"
    using cs Cons.prems(2,3) by (auto split: if_splits)
  note ih = Cons.IH [OF rest b]
  from cs Cons.prems(2,3) consider
      (f1) "is_fp_type bt" "\<not> is_java_int_type bt" "fp_args c0 < length FP_ArgReg"
           "c1 = c0\<lparr>fp_args := fp_args c0 + 1\<rparr>"
    | (f2) "is_fp_type bt" "\<not> is_java_int_type bt" "fp_args c0 = length FP_ArgReg"
           "c1 = c0\<lparr>stk_args := stk_args c0 + 2\<rparr>"
    | (i1) "is_java_int_type bt" "\<not> is_fp_type bt" "int_args c0 < length INT_ArgReg"
           "c1 = c0\<lparr>int_args := int_args c0 + 1\<rparr>"
    | (i2) "is_java_int_type bt" "\<not> is_fp_type bt" "int_args c0 = length INT_ArgReg"
           "c1 = c0\<lparr>stk_args := stk_args c0 + 2\<rparr>"
    | (v) "\<not> is_fp_type bt" "\<not> is_java_int_type bt" "c1 = c0"
    by (auto split: if_splits)
  then show ?case
  proof cases
    case f1 then show ?thesis using ih by simp
  next
    case f2 then show ?thesis using ih by simp
  next
    case i1 then show ?thesis using ih by simp
  next
    case i2 then show ?thesis using ih by simp
  next
    case v then show ?thesis using ih by simp
  qed
qed

text \<open>Both loops run to the end on a signature of accepted tags.\<close>

lemma c_loop_total:
  "\<forall>bt\<in>set p. c_accepts bt \<Longrightarrow>
   \<exists>regs c. cc_loop (c_step INT_ArgReg FP_ArgReg) p c0 = Inr (regs, c)"
proof (induction p arbitrary: c0)
  case Nil
  then show ?case by simp
next
  case (Cons bt p)
  hence "c_accepts bt" by simp
  from c_step_total [OF this] obtain r c1 where
    st: "c_step INT_ArgReg FP_ArgReg bt c0 = Inr (r, c1)" by blast
  from Cons obtain regs c where "cc_loop (c_step INT_ArgReg FP_ArgReg) p c1 = Inr (regs, c)"
    by fastforce
  with st show ?case by (simp del: c_step.simps)
qed

lemma java_loop_total:
  "\<forall>bt\<in>set p. java_accepts bt \<Longrightarrow>
   \<exists>regs c. cc_loop (java_step INT_ArgReg FP_ArgReg) p c0 = Inr (regs, c)"
proof (induction p arbitrary: c0)
  case Nil
  then show ?case by simp
next
  case (Cons bt p)
  hence "java_accepts bt" by simp
  from java_step_total [OF this] obtain r c1 where
    st: "java_step INT_ArgReg FP_ArgReg bt c0 = Inr (r, c1)" by blast
  from Cons obtain regs c where "cc_loop (java_step INT_ArgReg FP_ArgReg) p c1 = Inr (regs, c)"
    by fastforce
  with st show ?case by (simp del: java_step.simps)
qed

text \<open>The \<open>k\<close>-th argument with a property, among the positions before \<open>i\<close>.\<close>

lemma kth_filter:
  "k < length (filter P (take i xs)) \<Longrightarrow>
   \<exists>j<i. j < length xs \<and> P (xs ! j) \<and> length (filter P (take j xs)) = k"
proof (induction i)
  case 0
  then show ?case by simp
next
  case (Suc i)
  show ?case
  proof (cases "i < length xs")
    case False
    hence "take (Suc i) xs = take i xs" by simp
    with Suc.prems have "k < length (filter P (take i xs))" by simp
    from Suc.IH [OF this] show ?thesis by (auto intro: less_SucI)
  next
    case True
    hence t: "take (Suc i) xs = take i xs @ [xs ! i]" by (simp add: take_Suc_conv_app_nth)
    show ?thesis
    proof (cases "k < length (filter P (take i xs))")
      case True
      from Suc.IH [OF this] show ?thesis by (auto intro: less_SucI)
    next
      case False
      with Suc.prems t have "P (xs ! i)" "length (filter P (take i xs)) = k"
        by (auto split: if_splits)
      with \<open>i < length xs\<close> show ?thesis by blast
    qed
  qed
qed

text \<open>
  The location of a floating argument, from the signature alone: for the C convention
  and for the Java convention.
\<close>

lemma c_fp_position:
  assumes cc: "c_calling_convention INT_ArgReg FP_ArgReg sig_bt = Inr (regs, n)"
    and i: "i < length sig_bt" and fl: "is_fp_type (sig_bt ! i)"
  shows "first (regs ! i) =
     (if fp_before sig_bt i < length FP_ArgReg then FPR (FP_ArgReg ! fp_before sig_bt i)
      else if c_int_before sig_bt i + (fp_before sig_bt i - length FP_ArgReg) < length INT_ArgReg
      then GPR (INT_ArgReg ! (c_int_before sig_bt i + (fp_before sig_bt i - length FP_ArgReg)))
      else StackSlot (2 * (c_int_before sig_bt i + (fp_before sig_bt i - length FP_ArgReg)
                           - length INT_ArgReg)))"
proof -
  from cc obtain c' where
    loop: "cc_loop (c_step INT_ArgReg FP_ArgReg) sig_bt cursors0 = Inr (regs, c')"
    unfolding c_calling_convention_def by (auto split: sum.splits prod.splits)
  from cc_loop_nth [OF loop i] obtain ci cj where
    pre: "cc_loop (c_step INT_ArgReg FP_ArgReg) (take i sig_bt) cursors0 = Inr (take i regs, ci)"
    and st: "c_step INT_ArgReg FP_ArgReg (sig_bt ! i) ci = Inr (regs ! i, cj)"
    by blast
  have z: "fp_args cursors0 \<le> length FP_ArgReg" "int_args cursors0 \<le> length INT_ArgReg"
    by (simp_all add: cursors0_def)
  from c_cursors [OF pre z]
  have cur: "fp_args ci = min (length FP_ArgReg) (fp_before sig_bt i)"
    "int_args ci = min (length INT_ArgReg)
         (c_int_before sig_bt i + (fp_before sig_bt i - length FP_ArgReg))"
    "stk_args ci = 2 * (c_int_before sig_bt i + (fp_before sig_bt i - length FP_ArgReg)
                        - length INT_ArgReg)"
    by (simp_all add: cursors0_def fp_before_def c_int_before_def)
  from c_step_cases [OF st] fl show ?thesis
    unfolding cur by (auto simp: min_def split: if_splits)
qed

lemma java_fp_position:
  assumes cc: "java_calling_convention INT_ArgReg FP_ArgReg sig_bt = Inr (regs, n)"
    and i: "i < length sig_bt" and fl: "is_fp_type (sig_bt ! i)"
  shows "first (regs ! i) =
     (if fp_before sig_bt i < length FP_ArgReg then FPR (FP_ArgReg ! fp_before sig_bt i)
      else StackSlot (2 * ((java_int_before sig_bt i - length INT_ArgReg)
                           + (fp_before sig_bt i - length FP_ArgReg))))
     \<and> \<not> is_int_reg (first (regs ! i)) \<and> \<not> is_int_reg (second (regs ! i))"
proof -
  from cc obtain c' where
    loop: "cc_loop (java_step INT_ArgReg FP_ArgReg) sig_bt cursors0 = Inr (regs, c')"
    unfolding java_calling_convention_def by (auto split: sum.splits prod.splits)
  from cc_loop_nth [OF loop i] obtain ci cj where
    pre: "cc_loop (java_step INT_ArgReg FP_ArgReg) (take i sig_bt) cursors0 = Inr (take i regs, ci)"
    and st: "java_step INT_ArgReg FP_ArgReg (sig_bt ! i) ci = Inr (regs ! i, cj)"
    by blast
  have z: "fp_args cursors0 \<le> length FP_ArgReg" "int_args cursors0 \<le> length INT_ArgReg"
    by (simp_all add: cursors0_def)
  from java_cursors [OF pre z]
  have cur: "fp_args ci = min (length FP_ArgReg) (fp_before sig_bt i)"
    "stk_args ci = 2 * ((java_int_before sig_bt i - length INT_ArgReg)
                        + (fp_before sig_bt i - length FP_ArgReg))"
    by (simp_all add: cursors0_def fp_before_def java_int_before_def)
  from java_step_cases [OF st] fl show ?thesis
    unfolding cur by (auto simp: min_def split: if_splits)
qed

text \<open>
  When as many floating arguments as there are floating registers come before position
  \<open>i\<close>, every floating register has been given to one of them.
\<close>

lemma c_fp_exhausted:
  assumes cc: "c_calling_convention INT_ArgReg FP_ArgReg sig_bt = Inr (regs, n)"
    and full: "length FP_ArgReg \<le> fp_before sig_bt i"
    and k: "k < length FP_ArgReg"
  shows "\<exists>j<i. is_fp_type (sig_bt ! j) \<and> first (regs ! j) = FPR (FP_ArgReg ! k)"
proof -
  have "k < length (filter is_fp_type (take i sig_bt))"
    using full k by (simp add: fp_before_def)
  from kth_filter [OF this] obtain j where
    j: "j < i" "j < length sig_bt" "is_fp_type (sig_bt ! j)" "fp_before sig_bt j = k"
    by (auto simp: fp_before_def)
  from c_fp_position [OF cc j(2,3)] j(4) k have "first (regs ! j) = FPR (FP_ArgReg ! k)"
    by simp
  with j show ?thesis by blast
qed

lemma java_fp_exhausted:
  assumes cc: "java_calling_convention INT_ArgReg FP_ArgReg sig_bt = Inr (regs, n)"
    and full: "length FP_ArgReg \<le> fp_before sig_bt i"
    and k: "k < length FP_ArgReg"
  shows "\<exists>j<i. is_fp_type (sig_bt ! j) \<and> first (regs ! j) = FPR (FP_ArgReg ! k)"
proof -
  have "k < length (filter is_fp_type (take i sig_bt))"
    using full k by (simp add: fp_before_def)
  from kth_filter [OF this] obtain j where
    j: "j < i" "j < length sig_bt" "is_fp_type (sig_bt ! j)" "fp_before sig_bt j = k"
    by (auto simp: fp_before_def)
  from java_fp_position [OF cc j(2,3)] j(4) k have "first (regs ! j) = FPR (FP_ArgReg ! k)"
    by simp
  with j show ?thesis by blast
qed

text \<open>
  An argument that is given an integer register in the C convention is an integer-class
  argument or a floating argument that found the floating registers taken, and the
  register is the one at the number of such arguments before it.
\<close>

lemma count_before_mono:
  assumes "j < i" "j < length xs"
  shows "length (filter P (take j xs)) + (if P (xs ! j) then 1 else 0)
         \<le> length (filter P (take i xs))"
proof -
  have m: "min (Suc j) i = Suc j" using assms(1) by simp
  have "take (Suc j) (take i xs) @ drop (Suc j) (take i xs) = take i xs"
    by (rule append_take_drop_id)
  hence "take i xs = take (Suc j) xs @ drop (Suc j) (take i xs)"
    by (simp only: take_take m)
  moreover have "take (Suc j) xs = take j xs @ [xs ! j]"
    using assms(2) by (simp add: take_Suc_conv_app_nth)
  ultimately have e: "take i xs = (take j xs @ [xs ! j]) @ drop (Suc j) (take i xs)"
    by simp
  have "length (filter P (take i xs)) =
        length (filter P ((take j xs @ [xs ! j]) @ drop (Suc j) (take i xs)))"
    by (subst e) (rule refl)
  also have "\<dots> = length (filter P (take j xs)) + (if P (xs ! j) then 1 else 0)
         + length (filter P (drop (Suc j) (take i xs)))"
    by simp
  finally show ?thesis by simp
qed

lemma c_int_position:
  assumes cc: "c_calling_convention INT_ArgReg FP_ArgReg sig_bt = Inr (regs, n)"
    and j: "j < length sig_bt" and g: "first (regs ! j) = GPR x"
  shows "x = INT_ArgReg ! (c_int_before sig_bt j + (fp_before sig_bt j - length FP_ArgReg))
     \<and> c_int_before sig_bt j + (fp_before sig_bt j - length FP_ArgReg) < length INT_ArgReg
     \<and> (is_c_int_type (sig_bt ! j)
         \<or> is_fp_type (sig_bt ! j) \<and> length FP_ArgReg \<le> fp_before sig_bt j)"
proof -
  from cc obtain c' where
    loop: "cc_loop (c_step INT_ArgReg FP_ArgReg) sig_bt cursors0 = Inr (regs, c')"
    unfolding c_calling_convention_def by (auto split: sum.splits prod.splits)
  from cc_loop_nth [OF loop j] obtain cj ck where
    pre: "cc_loop (c_step INT_ArgReg FP_ArgReg) (take j sig_bt) cursors0 = Inr (take j regs, cj)"
    and st: "c_step INT_ArgReg FP_ArgReg (sig_bt ! j) cj = Inr (regs ! j, ck)"
    by blast
  have z: "fp_args cursors0 \<le> length FP_ArgReg" "int_args cursors0 \<le> length INT_ArgReg"
    by (simp_all add: cursors0_def)
  from c_cursors [OF pre z]
  have cur: "fp_args cj = min (length FP_ArgReg) (fp_before sig_bt j)"
    "int_args cj = min (length INT_ArgReg)
         (c_int_before sig_bt j + (fp_before sig_bt j - length FP_ArgReg))"
    by (simp_all add: cursors0_def fp_before_def c_int_before_def)
  from c_step_cases [OF st] g show ?thesis
    unfolding cur by (auto simp: min_def split: if_splits)
qed

lemma c_int_register_fresh:
  assumes cc: "c_calling_convention INT_ArgReg FP_ArgReg sig_bt = Inr (regs, n)"
    and d: "distinct INT_ArgReg"
    and i: "i < length sig_bt" and j: "j < i"
    and free: "c_int_before sig_bt i + (fp_before sig_bt i - length FP_ArgReg) < length INT_ArgReg"
  shows "first (regs ! j) \<noteq>
           GPR (INT_ArgReg ! (c_int_before sig_bt i + (fp_before sig_bt i - length FP_ArgReg)))"
proof
  assume g: "first (regs ! j) =
           GPR (INT_ArgReg ! (c_int_before sig_bt i + (fp_before sig_bt i - length FP_ArgReg)))"
  have jl: "j < length sig_bt" using i j by simp
  from c_int_position [OF cc jl g]
  have e: "INT_ArgReg ! (c_int_before sig_bt i + (fp_before sig_bt i - length FP_ArgReg)) =
           INT_ArgReg ! (c_int_before sig_bt j + (fp_before sig_bt j - length FP_ArgReg))"
    and lt: "c_int_before sig_bt j + (fp_before sig_bt j - length FP_ArgReg) < length INT_ArgReg"
    and cl: "is_c_int_type (sig_bt ! j)
         \<or> is_fp_type (sig_bt ! j) \<and> length FP_ArgReg \<le> fp_before sig_bt j"
    by simp_all
  from count_before_mono [OF j jl, of is_c_int_type] count_before_mono [OF j jl, of is_fp_type] cl
  have "c_int_before sig_bt j + (fp_before sig_bt j - length FP_ArgReg)
        < c_int_before sig_bt i + (fp_before sig_bt i - length FP_ArgReg)"
    by (auto simp: c_int_before_def fp_before_def split: if_splits)
  moreover from e d free lt
  have "c_int_before sig_bt i + (fp_before sig_bt i - length FP_ArgReg) =
        c_int_before sig_bt j + (fp_before sig_bt j - length FP_ArgReg)"
    by (simp add: nth_eq_iff_index_eq)
  ultimately show False by simp
qed

text \<open>
  C3.  For every signature of accepted tags both mappers return a location for every
  position.  Take a floating argument (float or double) at position \<open>i\<close>.  In the C
  convention it is given the next floating register while fewer floating arguments than
  floating registers come before it.  Once as many come before it, every floating
  register has been given to an earlier floating argument, and the argument is given an
  integer register as long as one remains, that is, as long as the integer-class
  arguments and the overflowing floating arguments before it are fewer than the integer
  registers; that register has been given to no earlier argument (the table naming each
  register once).  Only when no integer register remains does it go to the stack.  In
  the Java convention neither half of the location of a floating argument is ever an
  integer register: it is the next floating register, and once every floating register
  has been given to an earlier floating argument it is a stack slot, the one after the
  slots of the earlier arguments that found no register.
\<close>

theorem float_fallback_c_not_java:
  "((\<forall>bt\<in>set sig_bt. c_accepts bt) \<longrightarrow>
      (\<exists>regs n. c_calling_convention INT_ArgReg FP_ArgReg sig_bt = Inr (regs, n)))
   \<and> (\<forall>regs n i.
        c_calling_convention INT_ArgReg FP_ArgReg sig_bt = Inr (regs, n) \<longrightarrow>
        i < length sig_bt \<longrightarrow> is_fp_type (sig_bt ! i) \<longrightarrow>
        (fp_before sig_bt i < length FP_ArgReg \<longrightarrow>
           first (regs ! i) = FPR (FP_ArgReg ! fp_before sig_bt i))
        \<and> (length FP_ArgReg \<le> fp_before sig_bt i \<longrightarrow>
             (\<forall>k<length FP_ArgReg.
                \<exists>j<i. is_fp_type (sig_bt ! j) \<and> first (regs ! j) = FPR (FP_ArgReg ! k))
             \<and> (c_int_before sig_bt i + (fp_before sig_bt i - length FP_ArgReg)
                   < length INT_ArgReg \<longrightarrow>
                  first (regs ! i) =
                    GPR (INT_ArgReg ! (c_int_before sig_bt i
                                       + (fp_before sig_bt i - length FP_ArgReg)))
                  \<and> (distinct INT_ArgReg \<longrightarrow>
                       (\<forall>j<i. first (regs ! j) \<noteq> first (regs ! i))))
             \<and> (length INT_ArgReg
                   \<le> c_int_before sig_bt i + (fp_before sig_bt i - length FP_ArgReg) \<longrightarrow>
                  first (regs ! i) =
                    StackSlot (2 * (c_int_before sig_bt i
                                    + (fp_before sig_bt i - length FP_ArgReg)
                                    - length INT_ArgReg)))))
   \<and> ((\<forall>bt\<in>set sig_bt. java_accepts bt) \<longrightarrow>
        (\<exists>regs n. java_calling_convention INT_ArgReg FP_ArgReg sig_bt = Inr (regs, n)))
   \<and> (\<forall>regs n i.
        java_calling_convention INT_ArgReg FP_ArgReg sig_bt = Inr (regs, n) \<longrightarrow>
        i < length sig_bt \<longrightarrow> is_fp_type (sig_bt ! i) \<longrightarrow>
        \<not> is_int_reg (first (regs ! i)) \<and> \<not> is_int_reg (second (regs ! i))
        \<and> (fp_before sig_bt i < length FP_ArgReg \<longrightarrow>
             first (regs ! i) = FPR (FP_ArgReg ! fp_before sig_bt i))
        \<and> (length FP_ArgReg \<le> fp_before sig_bt i \<longrightarrow>
             (\<forall>k<length FP_ArgReg.
                \<exists>j<i. is_fp_type (sig_bt ! j) \<and> first (regs ! j) = FPR (FP_ArgReg ! k))
             \<and> first (regs ! i) =
                 StackSlot (2 * ((java_int_before sig_bt i - length INT_ArgReg)
                                 + (fp_before sig_bt i - length FP_ArgReg)))))"
proof (intro conjI allI impI)
  assume "\<forall>bt\<in>set sig_bt. c_accepts bt"
  from c_loop_total [OF this, of INT_ArgReg FP_ArgReg cursors0]
  show "\<exists>regs n. c_calling_convention INT_ArgReg FP_ArgReg sig_bt = Inr (regs, n)"
    unfolding c_calling_convention_def by auto
next
  assume "\<forall>bt\<in>set sig_bt. java_accepts bt"
  from java_loop_total [OF this, of INT_ArgReg FP_ArgReg cursors0]
  show "\<exists>regs n. java_calling_convention INT_ArgReg FP_ArgReg sig_bt = Inr (regs, n)"
    unfolding java_calling_convention_def by auto
next
  fix regs n i
  assume cc: "c_calling_convention INT_ArgReg FP_ArgReg sig_bt = Inr (regs, n)"
    and i: "i < length sig_bt" and fl: "is_fp_type (sig_bt ! i)"
  note pos = c_fp_position [OF cc i fl]
  {
    assume "fp_before sig_bt i < length FP_ArgReg"
    with pos show "first (regs ! i) = FPR (FP_ArgReg ! fp_before sig_bt i)" by simp
  }
  assume full: "length FP_ArgReg \<le> fp_before sig_bt i"
  {
    fix k
    assume "k < length FP_ArgReg"
    with c_fp_exhausted [OF cc full]
    show "\<exists>j<i. is_fp_type (sig_bt ! j) \<and> first (regs ! j) = FPR (FP_ArgReg ! k)" by blast
  }
  {
    assume free: "c_int_before sig_bt i + (fp_before sig_bt i - length FP_ArgReg)
                    < length INT_ArgReg"
    with pos full show g: "first (regs ! i) =
        GPR (INT_ArgReg ! (c_int_before sig_bt i + (fp_before sig_bt i - length FP_ArgReg)))"
      by simp
    fix j
    assume "distinct INT_ArgReg" "j < i"
    from c_int_register_fresh [OF cc this(1) i this(2) free] g
    show "first (regs ! j) \<noteq> first (regs ! i)" by simp
  }
  {
    assume "length INT_ArgReg
              \<le> c_int_before sig_bt i + (fp_before sig_bt i - length FP_ArgReg)"
    with pos full show "first (regs ! i) =
        StackSlot (2 * (c_int_before sig_bt i + (fp_before sig_bt i - length FP_ArgReg)
                        - length INT_ArgReg))"
      by simp
  }
next
  fix regs n i
  assume cc: "java_calling_convention INT_ArgReg FP_ArgReg sig_bt = Inr (regs, n)"
    and i: "i < length sig_bt" and fl: "is_fp_type (sig_bt ! i)"
  note pos = java_fp_position [OF cc i fl]
  from pos show "\<not> is_int_reg (first (regs ! i))" by blast
  from pos show "\<not> is_int_reg (second (regs ! i))" by blast
  {
    assume "fp_before sig_bt i < length FP_ArgReg"
    with pos show "first (regs ! i) = FPR (FP_ArgReg ! fp_before sig_bt i)" by simp
  }
  assume full: "length FP_ArgReg \<le> fp_before sig_bt i"
  {
    fix k
    assume "k < length FP_ArgReg"
    with java_fp_exhausted [OF cc full]
    show "\<exists>j<i. is_fp_type (sig_bt ! j) \<and> first (regs ! j) = FPR (FP_ArgReg ! k)" by blast
  }
  from pos full show "first (regs ! i) =
      StackSlot (2 * ((java_int_before sig_bt i - length INT_ArgReg)
                      + (fp_before sig_bt i - length FP_ArgReg)))"
    by simp
qed

lemma sig0_counts:
  "length sig0 = 10" "sig0 ! 9 = T_FLOAT" "fp_before sig0 9 = 8" "c_int_before sig0 9 = 1"
  "java_int_before sig0 9 = 1" "\<forall>bt\<in>set sig0. c_accepts bt" "\<forall>bt\<in>set sig0. java_accepts bt"
  by (simp_all add: sig0_def fp_before_def c_int_before_def java_int_before_def is_fp_type_def
      is_c_int_type_def is_java_int_type_def c_accepts_def java_accepts_def)

text \<open>
  Eight floats, an int and a ninth float with the tables of the port: the ninth float
  comes after eight floating arguments and one integer argument, so the C convention
  passes it in the second integer register \<open>x11\<close> and the Java convention in stack
  slot 0.
\<close>

theorem float_fallback_c_not_java_witness:
  "9 < length sig0 \<and> is_fp_type (sig0 ! 9) \<and> length fp_table \<le> fp_before sig0 9
   \<and> c_int_before sig0 9 + (fp_before sig0 9 - length fp_table) < length c_int_table
   \<and> (\<exists>regs n. c_calling_convention c_int_table fp_table sig0 = Inr (regs, n)
        \<and> first (regs ! 9) = GPR 11)
   \<and> (\<exists>regs n. java_calling_convention j_int_table fp_table sig0 = Inr (regs, n)
        \<and> first (regs ! 9) = StackSlot 0 \<and> \<not> is_int_reg (second (regs ! 9)))"
proof -
  have h: "9 < length sig0" "is_fp_type (sig0 ! 9)" "length fp_table \<le> fp_before sig0 9"
    "c_int_before sig0 9 + (fp_before sig0 9 - length fp_table) < length c_int_table"
    by (simp_all add: sig0_counts is_fp_type_def fp_table_def c_int_table_def)
  have v: "c_int_table ! (c_int_before sig0 9 + (fp_before sig0 9 - length fp_table)) = 11"
    "2 * ((java_int_before sig0 9 - length j_int_table)
          + (fp_before sig0 9 - length fp_table)) = 0"
    by (simp_all add: sig0_counts fp_table_def c_int_table_def j_int_table_def)
  note c = float_fallback_c_not_java [of sig0 c_int_table fp_table]
  note j = float_fallback_c_not_java [of sig0 j_int_table fp_table]
  from c sig0_counts(6) obtain regs n where
    cc: "c_calling_convention c_int_table fp_table sig0 = Inr (regs, n)" by blast
  from c cc h have "first (regs ! 9) =
      GPR (c_int_table ! (c_int_before sig0 9 + (fp_before sig0 9 - length fp_table)))"
    by blast
  hence C: "\<exists>regs n. c_calling_convention c_int_table fp_table sig0 = Inr (regs, n)
        \<and> first (regs ! 9) = GPR 11"
    using cc unfolding v by blast
  from j sig0_counts(7) obtain jregs jn where
    jc: "java_calling_convention j_int_table fp_table sig0 = Inr (jregs, jn)" by blast
  from j jc h(1,2,3) have "first (jregs ! 9) =
      StackSlot (2 * ((java_int_before sig0 9 - length j_int_table)
                      + (fp_before sig0 9 - length fp_table)))
      \<and> \<not> is_int_reg (second (jregs ! 9))"
    by blast
  hence J: "\<exists>regs n. java_calling_convention j_int_table fp_table sig0 = Inr (regs, n)
        \<and> first (regs ! 9) = StackSlot 0 \<and> \<not> is_int_reg (second (regs ! 9))"
    using jc unfolding v by blast
  from h C J show ?thesis by blast
qed

section \<open>Properties of the checkcasting array copy\<close>

lemma elem_addr_0 [simp]: "elem_addr env base 0 = base"
  by (simp add: elem_addr_def)

lemma elem_addr_Suc: "elem_addr env (base + heap_oop_size env) i = elem_addr env base (Suc i)"
  by (simp add: elem_addr_def algebra_simps)

lemma upt_Suc_shift: "[0..<Suc k] = 0 # map Suc [0..<k]"
  by (simp add: upt_conv_Cons map_Suc_upt del: upt_Suc)

lemma copy_result_step:
  assumes dis: "ranges_disjoint env from to (Suc k)"
  shows "copy_result env (heap(to := heap from)) (from + heap_oop_size env) (to + heap_oop_size env) k
       = copy_result env heap from to (Suc k)"
proof (rule ext)
  fix a
  let ?sz = "heap_oop_size env"
  let ?h1 = "heap(to := heap from)"
  have src: "?h1 (elem_addr env from i) = heap (elem_addr env from i)" if "i < Suc k" for i
  proof -
    from dis that have "elem_addr env from i \<noteq> elem_addr env to 0"
      unfolding ranges_disjoint_def by blast
    then show ?thesis by simp
  qed
  show "copy_result env ?h1 (from + ?sz) (to + ?sz) k a = copy_result env heap from to (Suc k) a"
  proof (cases "a \<in> set (map (elem_addr env (to + ?sz)) [0..<k])")
    case True
    then obtain i where i: "i < k" "a = elem_addr env to (Suc i)"
      by (auto simp: elem_addr_Suc)
    then have "from + ?sz + (a - (to + ?sz)) = elem_addr env from (Suc i)"
      by (simp add: elem_addr_def algebra_simps)
    moreover have "from + (a - to) = elem_addr env from (Suc i)"
      using i by (simp add: elem_addr_def algebra_simps)
    moreover have "a \<in> set (map (elem_addr env to) [0..<Suc k])"
      using i by (auto simp del: upt_Suc)
    ultimately show ?thesis using True src [of "Suc i"] i
      by (simp add: copy_result_def del: upt_Suc)
  next
    case False
    show ?thesis
    proof (cases "a = to")
      case True
      then show ?thesis using False
        by (simp add: copy_result_def upt_Suc_shift elem_addr_Suc del: upt_Suc)
    next
      case ne: False
      then have "a \<notin> set (map (elem_addr env to) [0..<Suc k])"
        using False by (auto simp: upt_Suc_shift elem_addr_Suc simp del: upt_Suc)
      then show ?thesis using False ne
        by (simp add: copy_result_def del: upt_Suc)
    qed
  qed
qed

lemma copy_trace_step:
  assumes dis: "ranges_disjoint env from to (Suc k)"
  shows "[LoadOop from, StoreOop to (heap from)] @
         copy_trace env (heap(to := heap from)) (from + heap_oop_size env) (to + heap_oop_size env) k
       = copy_trace env heap from to (Suc k)"
proof -
  have src: "(heap(to := heap from)) (elem_addr env from i) = heap (elem_addr env from i)" if "i < Suc k" for i
  proof -
    from dis that have "elem_addr env from i \<noteq> elem_addr env to 0"
      unfolding ranges_disjoint_def by blast
    then show ?thesis by simp
  qed
  have "copy_trace env (heap(to := heap from)) (from + heap_oop_size env) (to + heap_oop_size env) k
      = concat (map (\<lambda>i. [LoadOop (elem_addr env from (Suc i)),
                   StoreOop (elem_addr env to (Suc i)) (heap (elem_addr env from (Suc i)))]) [0..<k])"
    unfolding copy_trace_def
    by (rule arg_cong [where f = concat], rule map_cong)
       (simp_all add: src elem_addr_Suc del: fun_upd_apply)
  moreover have "copy_trace env heap from to (Suc k)
      = [LoadOop from, StoreOop to (heap from)] @
        concat (map (\<lambda>i. [LoadOop (elem_addr env from (Suc i)),
                   StoreOop (elem_addr env to (Suc i)) (heap (elem_addr env from (Suc i)))]) [0..<k])"
    by (simp add: copy_trace_def upt_Suc_shift comp_def del: upt_Suc)
  ultimately show ?thesis by simp
qed

lemma ranges_disjoint_step:
  "ranges_disjoint env from to (Suc k) \<Longrightarrow>
   ranges_disjoint env (from + heap_oop_size env) (to + heap_oop_size env) k"
  by (auto simp: ranges_disjoint_def elem_addr_Suc)

lemma checkcast_loop_fails:
  assumes "K < unat count"
    and "\<forall>i<K. element_passes env ckoff ckval heap (elem_addr env from i)"
    and "\<not> element_passes env ckoff ckval heap (elem_addr env from K)"
    and "ranges_disjoint env from to (Suc K)"
  shows "checkcast_loop env ckoff ckval from to count heap tr =
           (TypeCheckFailed, count - of_nat K, copy_result env heap from to K,
            tr @ copy_trace env heap from to K @ [LoadOop (elem_addr env from K)])"
  using assms
proof (induction K arbitrary: "from" to count heap tr)
  case 0
  then show ?case
    by (subst checkcast_loop.simps) (simp add: element_passes_def copy_result_def copy_trace_def)
next
  case (Suc k)
  let ?sz = "heap_oop_size env"
  let ?h1 = "heap(to := heap from)"
  have dis: "ranges_disjoint env from to (Suc k)"
    using Suc.prems(4) by (auto simp: ranges_disjoint_def)
  have src: "?h1 (elem_addr env from i) = heap (elem_addr env from i)" if "i < Suc (Suc k)" for i
  proof -
    from Suc.prems(4) that have "elem_addr env from i \<noteq> elem_addr env to 0"
      unfolding ranges_disjoint_def by blast
    then show ?thesis by simp
  qed
  have p0: "element_passes env ckoff ckval heap from"
    using Suc.prems(2) by (auto dest!: spec [where x = 0])
  have c0: "count \<noteq> 0"
    using Suc.prems(1) by auto
  have u1: "unat (count - 1) = unat count - 1"
    using c0 by (rule unat_minus_one)
  have lt: "k < unat (count - 1)"
    using Suc.prems(1) u1 by arith
  have c1: "count - 1 \<noteq> 0"
    using lt by auto
  have ih: "checkcast_loop env ckoff ckval (from + ?sz) (to + ?sz) (count - 1) ?h1 tr' =
           (TypeCheckFailed, count - 1 - of_nat k, copy_result env ?h1 (from + ?sz) (to + ?sz) k,
            tr' @ copy_trace env ?h1 (from + ?sz) (to + ?sz) k @ [LoadOop (elem_addr env (from + ?sz) k)])" for tr'
  proof (rule Suc.IH [OF lt])
    show "\<forall>i<k. element_passes env ckoff ckval ?h1 (elem_addr env (from + ?sz) i)"
      using Suc.prems(2) src by (auto simp: element_passes_def elem_addr_Suc)
    show "\<not> element_passes env ckoff ckval ?h1 (elem_addr env (from + ?sz) k)"
      using Suc.prems(3) src by (auto simp: element_passes_def elem_addr_Suc)
    show "ranges_disjoint env (from + ?sz) (to + ?sz) (Suc k)"
      using Suc.prems(4) by (rule ranges_disjoint_step)
  qed
  have "checkcast_loop env ckoff ckval from to count heap tr =
        checkcast_loop env ckoff ckval (from + ?sz) (to + ?sz) (count - 1) ?h1
          (tr @ [LoadOop from, StoreOop to (heap from)])"
    using p0 c1 by (subst checkcast_loop.simps) (simp add: element_passes_def Let_def)
  also note ih
  finally show ?case
    using copy_result_step [OF dis, of heap] copy_trace_step [OF dis, of heap]
    by (simp add: elem_addr_Suc algebra_simps del: upt_Suc)
qed

lemma checkcast_loop_succeeds:
  assumes "unat count = Suc n"
    and "\<forall>i<Suc n. element_passes env ckoff ckval heap (elem_addr env from i)"
    and "ranges_disjoint env from to (Suc n)"
  shows "checkcast_loop env ckoff ckval from to count heap tr =
           (AllCopied, 0, copy_result env heap from to (Suc n),
            tr @ copy_trace env heap from to (Suc n))"
  using assms
proof (induction n arbitrary: "from" to count heap tr)
  case 0
  have p0: "element_passes env ckoff ckval heap from"
    using "0.prems"(2) by (auto dest!: spec [where x = 0])
  have c: "count = 1"
    using "0.prems"(1) by (simp add: word_unat_eq_iff)
  have "copy_result env (heap(to := heap from)) (from + heap_oop_size env) (to + heap_oop_size env) 0
      = heap(to := heap from)"
    by (rule ext) (simp add: copy_result_def)
  with copy_result_step [OF "0.prems"(3), of heap]
  have r: "copy_result env heap from to (Suc 0) = heap(to := heap from)" by simp
  have t: "copy_trace env heap from to (Suc 0) = [LoadOop from, StoreOop to (heap from)]"
    by (simp add: copy_trace_def)
  show ?case
    using p0 c r t by (subst checkcast_loop.simps) (simp add: element_passes_def Let_def)
next
  case (Suc m)
  let ?sz = "heap_oop_size env"
  let ?h1 = "heap(to := heap from)"
  have src: "?h1 (elem_addr env from i) = heap (elem_addr env from i)" if "i < Suc (Suc m)" for i
  proof -
    from Suc.prems(3) that have "elem_addr env from i \<noteq> elem_addr env to 0"
      unfolding ranges_disjoint_def by blast
    then show ?thesis by simp
  qed
  have p0: "element_passes env ckoff ckval heap from"
    using Suc.prems(2) by (auto dest!: spec [where x = 0])
  have c0: "count \<noteq> 0"
    using Suc.prems(1) by auto
  have u1: "unat (count - 1) = Suc m"
    using unat_minus_one [OF c0] Suc.prems(1) by simp
  have c1: "count - 1 \<noteq> 0"
    using u1 by auto
  have ih: "checkcast_loop env ckoff ckval (from + ?sz) (to + ?sz) (count - 1) ?h1 tr' =
           (AllCopied, 0, copy_result env ?h1 (from + ?sz) (to + ?sz) (Suc m),
            tr' @ copy_trace env ?h1 (from + ?sz) (to + ?sz) (Suc m))" for tr'
  proof (rule Suc.IH [OF u1])
    show "\<forall>i<Suc m. element_passes env ckoff ckval ?h1 (elem_addr env (from + ?sz) i)"
      using Suc.prems(2) src by (auto simp: element_passes_def elem_addr_Suc)
    show "ranges_disjoint env (from + ?sz) (to + ?sz) (Suc m)"
      using Suc.prems(3) by (rule ranges_disjoint_step)
  qed
  have "checkcast_loop env ckoff ckval from to count heap tr =
        checkcast_loop env ckoff ckval (from + ?sz) (to + ?sz) (count - 1) ?h1
          (tr @ [LoadOop from, StoreOop to (heap from)])"
    using p0 c1 by (subst checkcast_loop.simps) (simp add: element_passes_def Let_def)
  also note ih
  finally show ?case
    using copy_result_step [OF Suc.prems(3), of heap] copy_trace_step [OF Suc.prems(3), of heap]
    by (simp del: upt_Suc)
qed

lemma ranges_disjoint_mono:
  "ranges_disjoint env from to L \<Longrightarrow> K \<le> L \<Longrightarrow> ranges_disjoint env from to K"
  by (auto simp: ranges_disjoint_def)

lemma copy_result_dest:
  "i < K \<Longrightarrow> copy_result env heap from to K (elem_addr env to i) = heap (elem_addr env from i)"
  by (auto simp: copy_result_def elem_addr_def)

lemma copy_result_other:
  "a \<notin> set (map (elem_addr env to) [0..<K]) \<Longrightarrow> copy_result env heap from to K a = heap a"
  by (simp add: copy_result_def)

lemma encoded_count_nonzero:
  assumes "K < unat (count :: 64 word)"
  shows "- (of_nat K + 1) \<noteq> (0 :: 64 word)"
proof
  assume "- (of_nat K + 1) = (0 :: 64 word)"
  then have "(of_nat (Suc K) :: 64 word) = 0"
    by (simp only: neg_equal_0_iff_equal of_nat_Suc add.commute)
  then have "2 ^ 64 dvd Suc K"
    by (simp only: word_of_nat_eq_0_iff) simp
  moreover have "Suc K < 2 ^ 64"
    using assms unsigned_less [of count, where 'a = nat] by simp
  ultimately show False
    by (auto dest: dvd_imp_le)
qed

lemma encoded_count_sint:
  assumes "K < unat (count :: 64 word)" and "unat count \<le> 2 ^ 63"
  shows "sint (- (of_nat K + 1) :: 64 word) = - (int K + 1)"
proof -
  have "(- (of_nat K + 1) :: 64 word) = of_int (- (int K + 1))" by simp
  moreover have "sint (of_int (- (int K + 1)) :: 64 word) = - (int K + 1)"
    using assms by (simp only: signed_of_int) (simp add: signed_take_bit_int_eq_self)
  ultimately show ?thesis by simp
qed

text \<open>
  C1.  For a call on disjoint source and destination slots: if element \<open>K\<close> (below
  the length \<open>unat count\<close>) is the first one that fails the destination-element-type
  check, the stub loads elements \<open>0..K\<close>, stores exactly the elements \<open>0..K-1\<close> to
  the destination slots of the same index, leaves every other slot as it was, and
  returns \<open>-(K+1)\<close> in \<open>x10\<close>; this value is never zero, also for \<open>K = 0\<close>, and
  it is negative as a signed number for lengths up to \<open>2^63\<close>.  If every element passes,
  all of them are stored and the stub returns 0.
\<close>

theorem checkcast_copy_partial:
  assumes dis: "ranges_disjoint env from to (unat count)"
  shows
   "(\<forall>K. K < unat count \<longrightarrow>
        (\<forall>i<K. element_passes env ckoff ckval heap (elem_addr env from i)) \<longrightarrow>
        \<not> element_passes env ckoff ckval heap (elem_addr env from K) \<longrightarrow>
        (\<exists>heap'. generate_checkcast_copy env from to count ckoff ckval heap =
             (- (of_nat K + 1), heap',
              [ArraycopyPrologue True from to count] @ copy_trace env heap from to K @
              [LoadOop (elem_addr env from K), ArraycopyEpilogue True to count])
          \<and> (\<forall>i<K. heap' (elem_addr env to i) = heap (elem_addr env from i))
          \<and> (\<forall>a. a \<notin> set (map (elem_addr env to) [0..<K]) \<longrightarrow> heap' a = heap a))
        \<and> - (of_nat K + 1) \<noteq> (0 :: 64 word)
        \<and> (unat count \<le> 2 ^ 63 \<longrightarrow> sint (- (of_nat K + 1) :: 64 word) = - (int K + 1)))
  \<and> ((\<forall>i<unat count. element_passes env ckoff ckval heap (elem_addr env from i)) \<longrightarrow>
        (\<exists>heap' tr. generate_checkcast_copy env from to count ckoff ckval heap = (0, heap', tr)
          \<and> (\<forall>i<unat count. heap' (elem_addr env to i) = heap (elem_addr env from i))
          \<and> (\<forall>a. a \<notin> set (map (elem_addr env to) [0..<unat count]) \<longrightarrow> heap' a = heap a)))"
proof (intro conjI allI impI)
  fix K
  assume K: "K < unat count"
    and pass: "\<forall>i<K. element_passes env ckoff ckval heap (elem_addr env from i)"
    and fail: "\<not> element_passes env ckoff ckval heap (elem_addr env from K)"
  from K have c0: "count \<noteq> 0" by auto
  from dis K have dK: "ranges_disjoint env from to (Suc K)"
    by (auto intro: ranges_disjoint_mono)
  have x: "(count - (count - of_nat K)) XOR (- 1) = - (of_nat K + 1)" for count :: "64 word"
    by (simp add: not_eq_complement)
  have nz: "- (of_nat K + 1) \<noteq> (0 :: 64 word)"
    using K by (rule encoded_count_nonzero)
  have run: "generate_checkcast_copy env from to count ckoff ckval heap =
             (- (of_nat K + 1), copy_result env heap from to K,
              [ArraycopyPrologue True from to count] @ copy_trace env heap from to K @
              [LoadOop (elem_addr env from K), ArraycopyEpilogue True to count])"
    unfolding generate_checkcast_copy_def Let_def
    by (simp only: if_not_P [OF c0] checkcast_loop_fails [OF K pass fail dK] prod.case
          loop_exit.case x if_not_P [OF nz] append_assoc append.simps)
  show "\<exists>heap'. generate_checkcast_copy env from to count ckoff ckval heap =
             (- (of_nat K + 1), heap',
              [ArraycopyPrologue True from to count] @ copy_trace env heap from to K @
              [LoadOop (elem_addr env from K), ArraycopyEpilogue True to count])
          \<and> (\<forall>i<K. heap' (elem_addr env to i) = heap (elem_addr env from i))
          \<and> (\<forall>a. a \<notin> set (map (elem_addr env to) [0..<K]) \<longrightarrow> heap' a = heap a)"
    using run copy_result_dest [of _ K env heap "from" to] copy_result_other [of _ env to K heap "from"]
    by blast
  show "- (of_nat K + 1) \<noteq> (0 :: 64 word)" by (rule nz)
  assume "unat count \<le> 2 ^ 63"
  with K show "sint (- (of_nat K + 1) :: 64 word) = - (int K + 1)"
    by (rule encoded_count_sint)
next
  assume pass: "\<forall>i<unat count. element_passes env ckoff ckval heap (elem_addr env from i)"
  show "\<exists>heap' tr. generate_checkcast_copy env from to count ckoff ckval heap = (0, heap', tr)
          \<and> (\<forall>i<unat count. heap' (elem_addr env to i) = heap (elem_addr env from i))
          \<and> (\<forall>a. a \<notin> set (map (elem_addr env to) [0..<unat count]) \<longrightarrow> heap' a = heap a)"
  proof (cases "count = 0")
    case True
    then show ?thesis by (simp add: generate_checkcast_copy_def)
  next
    case False
    then obtain n where n: "unat count = Suc n"
      by (metis not0_implies_Suc unat_eq_zero)
    have "generate_checkcast_copy env from to count ckoff ckval heap =
             (0, copy_result env heap from to (unat count),
              [ArraycopyPrologue True from to count] @ copy_trace env heap from to (unat count) @
              [ArraycopyEpilogue True to count])"
      unfolding generate_checkcast_copy_def Let_def
      by (simp only: if_not_P [OF False] checkcast_loop_succeeds [OF n pass [unfolded n] dis [unfolded n]]
            prod.case loop_exit.case append_assoc append.simps n)
    then show ?thesis
      using copy_result_dest [of _ "unat count" env heap "from" to]
        copy_result_other [of _ env to "unat count" heap "from"]
      by blast
  qed
qed

lemma upt_0_2: "[0..<2] = [0, 1]"
  by (simp add: numeral_2_eq_2)

lemma upt_0_3: "[0..<3] = [0, 1, 2]"
  by (simp add: numeral_3_eq_3)

lemma all_less_2: "(\<forall>i<2::nat. P i) = (P 0 \<and> P 1)"
  by (auto simp: less_2_cases_iff)

lemma all_less_3: "(\<forall>i<3::nat. P i) = (P 0 \<and> P 1 \<and> P 2)"
proof -
  have "i < 3 \<longleftrightarrow> i = 0 \<or> i = 1 \<or> i = 2" for i :: nat by arith
  then show ?thesis by auto
qed

theorem checkcast_copy_partial_witness:
  "\<exists>heap'. generate_checkcast_copy env0 0x1000 0x2000 3 0 0 heap0 =
      (- 3, heap',
       [ArraycopyPrologue True 0x1000 0x2000 3, LoadOop 0x1000, StoreOop 0x2000 2,
        LoadOop 0x1008, StoreOop 0x2008 4, LoadOop 0x1010, ArraycopyEpilogue True 0x2000 3])
    \<and> heap' 0x2000 = 2 \<and> heap' 0x2008 = 4 \<and> heap' 0x2010 = 0"
proof -
  have u: "unat (3 :: 64 word) = 3" by simp
  have dis: "ranges_disjoint env0 0x1000 0x2000 (unat (3 :: 64 word))"
    unfolding u
    by (simp add: ranges_disjoint_def elem_addr_def heap_oop_size_def env0_def all_less_3)
  have K: "2 < unat (3 :: 64 word)" by simp
  have pass: "\<forall>i<2. element_passes env0 0 0 heap0 (elem_addr env0 0x1000 i)"
    by (simp add: element_passes_def elem_addr_def heap_oop_size_def env0_def heap0_def all_less_2)
  have fail: "\<not> element_passes env0 0 0 heap0 (elem_addr env0 0x1000 2)"
    by (simp add: element_passes_def elem_addr_def heap_oop_size_def env0_def heap0_def)
  from checkcast_copy_partial [OF dis, of 0 0 heap0, THEN conjunct1, rule_format, OF K pass [rule_format] fail]
  obtain heap' where
    run: "generate_checkcast_copy env0 0x1000 0x2000 3 0 0 heap0 =
           (- (of_nat 2 + 1), heap',
            [ArraycopyPrologue True 0x1000 0x2000 3] @ copy_trace env0 heap0 0x1000 0x2000 2 @
            [LoadOop (elem_addr env0 0x1000 2), ArraycopyEpilogue True 0x2000 3])"
    and dst: "\<forall>i<2. heap' (elem_addr env0 0x2000 i) = heap0 (elem_addr env0 0x1000 i)"
    and oth: "\<forall>a. a \<notin> set (map (elem_addr env0 0x2000) [0..<2]) \<longrightarrow> heap' a = heap0 a"
    by blast
  have t: "copy_trace env0 heap0 0x1000 0x2000 2 =
      [LoadOop 0x1000, StoreOop 0x2000 2, LoadOop 0x1008, StoreOop 0x2008 4]"
    by (simp add: copy_trace_def elem_addr_def heap_oop_size_def env0_def heap0_def upt_0_2)
  have "heap' 0x2000 = 2" "heap' 0x2008 = 4"
    using dst by (simp_all add: elem_addr_def heap_oop_size_def env0_def heap0_def all_less_2)
  moreover have "heap' 0x2010 = 0"
    using oth [rule_format, of "0x2010"]
    by (simp add: elem_addr_def heap_oop_size_def env0_def heap0_def upt_0_2)
  ultimately show ?thesis
    using run t by (simp add: elem_addr_def heap_oop_size_def env0_def)
qed

section \<open>Properties of the bulk copy\<close>

lemma width_bounds: "0 < insn_width insn" "insn_width insn \<le> 8"
  by (cases insn; simp)+

lemma store_le_apply:
  "k \<le> 2 ^ 64 \<Longrightarrow>
   store_le m a k v x = (if unat (x - a) < k then ucast (drop_bit (8 * unat (x - a)) v) else m x)"
proof (induction k arbitrary: m a v)
  case 0
  then show ?case by simp
next
  case (Suc k)
  have k: "k \<le> 2 ^ 64" "k < 2 ^ 64" using Suc.prems by simp_all
  show ?case
  proof (cases "x = a")
    case True
    have "unat (a - (a + 1)) = 2 ^ 64 - 1"
      by (simp add: unsigned_minus_1_eq_mask mask_eq_exp_minus_1)
    then have "\<not> unat (a - (a + 1)) < k" using k by simp
    then show ?thesis using True Suc.IH [OF k(1)] by simp
  next
    case False
    then have nz: "x - a \<noteq> 0" by simp
    have e: "x - (a + 1) = x - a - 1" by simp
    have u: "unat (x - (a + 1)) = unat (x - a) - 1"
      unfolding e using nz by (rule unat_minus_one)
    have pos: "0 < unat (x - a)" using nz by (simp add: unat_gt_0)
    have "8 + 8 * (unat (x - a) - 1) = 8 * unat (x - a)" using pos by simp
    then have d: "drop_bit (8 * (unat (x - a) - 1)) (drop_bit 8 v) = drop_bit (8 * unat (x - a)) v"
      by (simp add: drop_bit_drop_bit add.commute)
    have lt: "unat (x - a) - 1 < k \<longleftrightarrow> unat (x - a) < Suc k" using pos by arith
    have "store_le m a (Suc k) v x = store_le (m(a := ucast v)) (a + 1) k (drop_bit 8 v) x"
      by simp
    also have "\<dots> = (if unat (x - (a + 1)) < k
                     then ucast (drop_bit (8 * unat (x - (a + 1))) (drop_bit 8 v))
                     else (m(a := ucast v)) x)"
      by (rule Suc.IH [OF k(1)])
    also have "\<dots> = (if unat (x - a) < Suc k then ucast (drop_bit (8 * unat (x - a)) v) else m x)"
      unfolding u lt d using False by simp
    finally show ?thesis .
  qed
qed

lemma bit_load_le:
  "bit (load_le m a k) n \<longleftrightarrow> n < 64 \<and> n < 8 * k \<and> bit (m (a + of_nat (n div 8))) (n mod 8)"
proof (induction k arbitrary: a n)
  case 0
  then show ?case by simp
next
  case (Suc k)
  show ?case
  proof (cases "n < 8")
    case True
    then show ?thesis
      by (simp add: bit_or_iff bit_ucast_iff bit_push_bit_iff)
  next
    case False
    then have n8: "8 \<le> n" by simp
    have dv: "(n - 8) div 8 = n div 8 - 1" "(n - 8) mod 8 = n mod 8"
      using le_div_geq [of 8 n] le_mod_geq [of 8 n] n8 by simp_all
    have pos: "0 < n div 8" using n8 by (simp add: div_greater_zero_iff)
    have ad: "a + 1 + of_nat (n div 8 - 1) = a + of_nat (n div 8)"
      using pos by (simp add: of_nat_diff)
    have nb: "\<not> bit (ucast (m a) :: 64 word) n"
      using False by (auto simp: bit_ucast_iff dest: bit_imp_le_length)
    show ?thesis
      using n8 nb Suc.IH [of "a + 1" "n - 8"] dv ad
      by (auto simp: bit_or_iff bit_push_bit_iff)
  qed
qed

lemma load_le_byte:
  assumes "i < k" "k \<le> 8"
  shows "ucast (drop_bit (8 * i) (load_le m a k)) = m (a + of_nat i)"
proof (rule bit_word_eqI)
  fix j
  assume j: "j < LENGTH(8)"
  then have j8: "j < 8" by simp
  have "(8 * i + j) div 8 = i" "(8 * i + j) mod 8 = j"
    using j8 by simp_all
  moreover have "8 * i + j < 64" "8 * i + j < 8 * k"
    using assms j8 by simp_all
  ultimately show "bit (ucast (drop_bit (8 * i) (load_le m a k)) :: 8 word) j
      \<longleftrightarrow> bit (m (a + of_nat i)) j"
    using j8 by (simp add: bit_ucast_iff bit_drop_bit_eq bit_load_le add.commute)
qed

lemma copy_chunk:
  assumes "k \<le> 8"
  shows "store_le m d k (load_le m s k) = moved m s d k"
proof (rule ext)
  fix x
  have k: "k \<le> 2 ^ 64" using assms by simp
  show "store_le m d k (load_le m s k) x = moved m s d k x"
  proof (cases "unat (x - d) < k")
    case True
    from load_le_byte [OF True assms, of m s]
    show ?thesis using True by (simp add: store_le_apply [OF k] moved_def)
  next
    case False
    then show ?thesis by (simp add: store_le_apply [OF k] moved_def)
  qed
qed

lemma unat_of_nat64: "n < 2 ^ 64 \<Longrightarrow> unat (of_nat n :: 64 word) = n"
  by (simp add: unat_of_nat)

lemma unat_lt64: "unat (w :: 64 word) < 2 ^ 64"
  using unsigned_less [of w, where 'a = nat] by simp

lemma unat_sub64:
  "unat (a - b :: 64 word) = (if unat b \<le> unat a then unat a - unat b else unat a + 2 ^ 64 - unat b)"
  using unat_sub_if' [of a b] by simp

lemma moved_split_fwd:
  assumes pc: "p \<le> c" and c: "c < 2 ^ 64"
    and ok: "d - s = 0 \<or> c \<le> unat (d - s)"
  shows "moved (moved m s d p) (s + of_nat p) (d + of_nat p) (c - p) = moved m s d c"
proof (rule ext)
  fix x
  define y where "y = x - d"
  define \<delta> where "\<delta> = d - s"
  have uP: "unat (of_nat p :: 64 word) = p"
    using pc c by (simp add: unat_of_nat64)
  have e1: "x - (d + of_nat p) = y - of_nat p" by (simp add: y_def)
  have e2: "s + of_nat p + (y - of_nat p) = s + y" by simp
  have e3: "s + y - d = y - \<delta>" by (simp add: \<delta>_def)
  have sub1: "unat (y - of_nat p) = (if p \<le> unat y then unat y - p else unat y + 2 ^ 64 - p)"
    by (simp add: unat_sub64 uP)
  have sub3: "unat (y - \<delta>) = (if unat \<delta> \<le> unat y then unat y - unat \<delta> else unat y + 2 ^ 64 - unat \<delta>)"
    by (rule unat_sub64)
  have yb: "unat y < 2 ^ 64" and bd: "unat \<delta> < 2 ^ 64"
    by (rule unat_lt64)+
  have ok': "unat \<delta> = 0 \<or> c \<le> unat \<delta>"
    using ok by (auto simp: \<delta>_def)
  have lhs: "moved (moved m s d p) (s + of_nat p) (d + of_nat p) (c - p) x =
        (if unat (y - of_nat p) < c - p
         then (if unat (y - \<delta>) < p then m (s + (y - \<delta>)) else m (s + y))
         else (if unat y < p then m (s + y) else m x))"
    by (simp add: moved_def e1 e2 e3 flip: y_def)
  have rhs: "moved m s d c x = (if unat y < c then m (s + y) else m x)"
    by (simp add: moved_def flip: y_def)
  consider "unat y < p" | "p \<le> unat y" "unat y < c" | "c \<le> unat y"
    using pc by linarith
  then show "moved (moved m s d p) (s + of_nat p) (d + of_nat p) (c - p) x = moved m s d c x"
  proof cases
    case 1
    then have "\<not> unat (y - of_nat p) < c - p"
      using sub1 c pc by simp
    then show ?thesis using 1 pc by (simp add: lhs rhs)
  next
    case 2
    then have a: "unat (y - of_nat p) < c - p"
      using sub1 by simp
    have "\<not> unat (y - \<delta>) < p"
      using ok' 2 sub3 bd by auto
    then show ?thesis using 2 a by (simp add: lhs rhs)
  next
    case 3
    then have "\<not> unat (y - of_nat p) < c - p" "\<not> unat y < p"
      using sub1 pc by simp_all
    then show ?thesis using 3 by (simp add: lhs rhs)
  qed
qed

lemma moved_split_bwd:
  assumes pc: "p \<le> c" and ok: "unat (d - s) + c < 2 ^ 64"
  shows "moved (moved m (s + of_nat p) (d + of_nat p) (c - p)) s d p = moved m s d c"
proof (rule ext)
  fix x
  define y where "y = x - d"
  define \<delta> where "\<delta> = d - s"
  define z where "z = \<delta> + of_nat p"
  have c: "c < 2 ^ 64" using ok by simp
  have uP: "unat (of_nat p :: 64 word) = p"
    using pc c by (simp add: unat_of_nat64)
  have bd: "unat \<delta> + c < 2 ^ 64" using ok by (simp add: \<delta>_def)
  have uz: "unat z = unat \<delta> + p"
    unfolding z_def using bd pc uP by (simp add: unat_plus_if')
  have e1: "x - (d + of_nat p) = y - of_nat p" by (simp add: y_def)
  have e2: "s + of_nat p + (y - of_nat p) = s + y" by simp
  have e3: "s + y - (d + of_nat p) = y - z" by (simp add: \<delta>_def z_def)
  have e4: "s + of_nat p + (y - z) = s + (y - \<delta>)" by (simp add: z_def)
  have sub1: "unat (y - of_nat p) = (if p \<le> unat y then unat y - p else unat y + 2 ^ 64 - p)"
    by (simp add: unat_sub64 uP)
  have sub3: "unat (y - z) = (if unat z \<le> unat y then unat y - unat z else unat y + 2 ^ 64 - unat z)"
    by (rule unat_sub64)
  have lhs: "moved (moved m (s + of_nat p) (d + of_nat p) (c - p)) s d p x =
        (if unat y < p
         then (if unat (y - z) < c - p then m (s + (y - \<delta>)) else m (s + y))
         else (if unat (y - of_nat p) < c - p then m (s + y) else m x))"
    by (simp add: moved_def e1 e2 e3 e4 flip: y_def)
  have rhs: "moved m s d c x = (if unat y < c then m (s + y) else m x)"
    by (simp add: moved_def flip: y_def)
  consider "unat y < p" | "p \<le> unat y" "unat y < c" | "c \<le> unat y"
    using pc by linarith
  then show "moved (moved m (s + of_nat p) (d + of_nat p) (c - p)) s d p x = moved m s d c x"
  proof cases
    case 1
    then have "\<not> unat (y - z) < c - p"
      using sub3 uz bd pc by auto
    then show ?thesis using 1 pc by (simp add: lhs rhs)
  next
    case 2
    then have a: "unat (y - of_nat p) < c - p"
      using sub1 by simp
    then show ?thesis using 2 a by (simp add: lhs rhs)
  next
    case 3
    then have "\<not> unat (y - of_nat p) < c - p" "\<not> unat y < p"
      using sub1 pc by simp_all
    then show ?thesis using 3 by (simp add: lhs rhs)
  qed
qed

lemma moved_0 [simp]: "moved m s d 0 = m"
  by (simp add: moved_def)

lemma copy_ok_mono: "copy_ok b \<delta> c \<Longrightarrow> c' \<le> c \<Longrightarrow> copy_ok b \<delta> c'"
  by (auto simp: copy_ok_def)

lemma sint_of_nat64: "c < 2 ^ 63 \<Longrightarrow> sint (of_nat c :: 64 word) = int c"
  by (simp add: signed_of_nat signed_take_bit_int_eq_self)

lemma sint_of_nat_diff64:
  assumes "a < 2 ^ 63" "b \<le> 2 ^ 63"
  shows "sint (of_nat a - of_nat b :: 64 word) = int a - int b"
proof -
  have e: "(of_nat a - of_nat b :: 64 word) = of_int (int a - int b)"
    by (simp only: of_int_diff of_int_of_nat_eq)
  show ?thesis
    unfolding e using assms
    by (simp only: signed_of_int) (simp add: signed_take_bit_int_eq_self)
qed

lemma of_nat_eq_0_64: "c < 2 ^ 64 \<Longrightarrow> (of_nat c :: 64 word) = 0 \<longleftrightarrow> c = 0"
  using unat_of_nat64 [of c] by (auto simp: unat_eq_zero [symmetric] simp del: unat_eq_zero)

lemma adv_adv: "adv b (adv b a p) q = adv b a (p + q)"
  by (simp add: adv_def)

lemma moved_step:
  assumes pc: "p \<le> c" and c: "c < 2 ^ 63" and ok: "copy_ok b (d - s) c"
  shows "moved (moved m (lo b s p) (lo b d p) p)
           (lo b (adv b s p) (c - p)) (lo b (adv b d p) (c - p)) (c - p)
       = moved m (lo b s c) (lo b d c) c"
proof (cases b)
  case False
  have "c < 2 ^ 64" using c by simp
  with moved_split_fwd [OF pc this, of d s m] ok False show ?thesis
    by (simp add: lo_def adv_def copy_ok_def)
next
  case True
  define s' where "s' = s - of_nat c"
  define d' where "d' = d - of_nat c"
  have e: "s - of_nat p = s' + of_nat (c - p)" "d - of_nat p = d' + of_nat (c - p)"
    using pc by (simp_all add: s'_def d'_def of_nat_diff)
  have e2: "s - of_nat p - of_nat (c - p) = s'" "d - of_nat p - of_nat (c - p) = d'"
    using pc by (simp_all add: s'_def d'_def of_nat_diff)
  have dd: "d' - s' = d - s" by (simp add: s'_def d'_def)
  have "moved (moved m (s' + of_nat (c - p)) (d' + of_nat (c - p)) (c - (c - p))) s' d' (c - p)
      = moved m s' d' c"
    using ok True by (intro moved_split_bwd) (simp_all add: dd copy_ok_def)
  moreover have "c - (c - p) = p" using pc by simp
  ultimately show ?thesis using True
    by (simp add: lo_def adv_def e e2 flip: s'_def d'_def)
qed

lemma copy_iter_eq:
  "copy_iter b insn (at_label lab \<lparr>src = s, dst = d, cnt = c, mem = m, log = l\<rparr>) =
     \<lparr>src = adv b s (insn_width insn), dst = adv b d (insn_width insn),
      cnt = c - of_nat (insn_width insn),
      mem = moved m (lo b s (insn_width insn)) (lo b d (insn_width insn)) (insn_width insn),
      log = l @ [At lab, Ld (insn_width insn) (lo b s (insn_width insn)),
                 St (insn_width insn) (lo b d (insn_width insn))]\<rparr>"
  using width_bounds [of insn]
  by (simp add: copy_iter_def copy_elem_def at_label_def Let_def lo_def adv_def copy_chunk)

lemma width_dvd8: "insn_width insn dvd 8"
  by (cases insn) simp_all

lemma copy_small_eq:
  assumes "0 < c" "c < 2 ^ 63" "insn_width insn dvd c" "copy_ok b (d - s) c"
  shows "copy_small b insn \<lparr>src = s, dst = d, cnt = of_nat c, mem = m, log = l\<rparr> =
     \<lparr>src = adv b s c, dst = adv b d c, cnt = 0,
      mem = moved m (lo b s c) (lo b d c) c,
      log = l @ iter_log L_copy_small b (insn_width insn) s d (c div insn_width insn)\<rparr>"
  using assms
proof (induction c arbitrary: s d m l rule: less_induct)
  case (less c)
  let ?w = "insn_width insn"
  have w: "0 < ?w" "?w \<le> 8" by (rule width_bounds)+
  have wc: "?w \<le> c" using less.prems(1,3) by (auto dest: dvd_imp_le)
  define c1 where "c1 = c - ?w"
  have c1: "c1 < c" "c1 < 2 ^ 63" "c = ?w + c1" using wc w less.prems(2) by (simp_all add: c1_def)
  have cn: "(of_nat c - of_nat ?w :: 64 word) = of_nat c1"
    using wc by (simp add: c1_def of_nat_diff)
  have dv: "c div ?w = Suc (c1 div ?w)"
    using w wc by (simp add: c1_def le_div_geq)
  have it: "copy_iter b insn (at_label L_copy_small \<lparr>src = s, dst = d, cnt = of_nat c, mem = m, log = l\<rparr>) =
     \<lparr>src = adv b s ?w, dst = adv b d ?w, cnt = of_nat c1,
      mem = moved m (lo b s ?w) (lo b d ?w) ?w,
      log = l @ [At L_copy_small, Ld ?w (lo b s ?w), St ?w (lo b d ?w)]\<rparr>"
    by (simp only: copy_iter_eq cn)
  have ms: "moved (moved m (lo b s ?w) (lo b d ?w) ?w)
           (lo b (adv b s ?w) c1) (lo b (adv b d ?w) c1) c1
       = moved m (lo b s c) (lo b d c) c"
    using moved_step [OF wc less.prems(2) less.prems(4), of m] by (simp add: c1_def)
  let ?R1 = "\<lparr>src = adv b s ?w, dst = adv b d ?w, cnt = of_nat c1,
      mem = moved m (lo b s ?w) (lo b d ?w) ?w,
      log = l @ [At L_copy_small, Ld ?w (lo b s ?w), St ?w (lo b d ?w)]\<rparr>"
  have step: "copy_small b insn \<lparr>src = s, dst = d, cnt = of_nat c, mem = m, log = l\<rparr> =
      (if 0 <s (of_nat c1 :: 64 word) then copy_small b insn ?R1 else ?R1)"
    by (subst copy_small.simps) (simp add: it Let_def)
  show ?case
  proof (cases "c1 = 0")
    case True
    have "\<not> 0 <s (of_nat c1 :: 64 word)" using True by (simp add: word_sless_alt)
    then have "copy_small b insn \<lparr>src = s, dst = d, cnt = of_nat c, mem = m, log = l\<rparr> = ?R1"
      by (simp only: step if_False)
    also have "?R1 = \<lparr>src = adv b s c, dst = adv b d c, cnt = 0,
      mem = moved m (lo b s c) (lo b d c) c,
      log = l @ iter_log L_copy_small b ?w s d (c div ?w)\<rparr>"
      using True c1(3) w by simp
    finally show ?thesis .
  next
    case False
    then have pos: "0 <s (of_nat c1 :: 64 word)"
      using c1 by (simp add: word_sless_alt sint_of_nat64)
    have dd: "adv b d ?w - adv b s ?w = d - s" by (simp add: adv_def)
    have ih: "copy_small b insn ?R1 =
     \<lparr>src = adv b (adv b s ?w) c1, dst = adv b (adv b d ?w) c1, cnt = 0,
      mem = moved (moved m (lo b s ?w) (lo b d ?w) ?w)
              (lo b (adv b s ?w) c1) (lo b (adv b d ?w) c1) c1,
      log = (l @ [At L_copy_small, Ld ?w (lo b s ?w), St ?w (lo b d ?w)]) @
            iter_log L_copy_small b ?w (adv b s ?w) (adv b d ?w) (c1 div ?w)\<rparr>"
    proof (rule less.IH [OF c1(1)])
      show "0 < c1" using False by simp
      show "c1 < 2 ^ 63" by (rule c1)
      show "?w dvd c1" using less.prems(3) wc by (simp add: c1_def dvd_diff_nat)
      show "copy_ok b (adv b d ?w - adv b s ?w) c1"
        unfolding dd using less.prems(4) c1 by (auto intro: copy_ok_mono)
    qed
    have "copy_small b insn \<lparr>src = s, dst = d, cnt = of_nat c, mem = m, log = l\<rparr> =
          copy_small b insn ?R1"
      using pos by (simp only: step if_True)
    also note ih
    finally show ?thesis
      by (simp add: ms adv_adv dv flip: c1(3))
  qed
qed

lemma copy8_eq:
  assumes "8 \<le> c" "c < 2 ^ 63" "copy_ok b (d - s) c"
  shows "copy8 b \<lparr>src = s, dst = d, cnt = of_nat c, mem = m, log = l\<rparr> =
     \<lparr>src = adv b s (8 * (c div 8)), dst = adv b d (8 * (c div 8)), cnt = of_nat (c mod 8),
      mem = moved m (lo b s (8 * (c div 8))) (lo b d (8 * (c div 8))) (8 * (c div 8)),
      log = l @ iter_log L_copy8 b 8 s d (c div 8)\<rparr>"
  using assms
proof (induction c arbitrary: s d m l rule: less_induct)
  case (less c)
  define c1 where "c1 = c - 8"
  have c1: "c1 < c" "c1 < 2 ^ 63" "c = 8 + c1" using less.prems(1,2) by (simp_all add: c1_def)
  have cn: "(of_nat c - of_nat (insn_width Ld_Sd) :: 64 word) = of_nat c1"
    using less.prems(1) by (simp add: c1_def of_nat_diff)
  have dv: "c div 8 = Suc (c1 div 8)" "c mod 8 = c1 mod 8"
    using less.prems(1) by (simp_all add: c1_def le_div_geq le_mod_geq)
  let ?R1 = "\<lparr>src = adv b s 8, dst = adv b d 8, cnt = of_nat c1,
      mem = moved m (lo b s 8) (lo b d 8) 8,
      log = l @ [At L_copy8, Ld 8 (lo b s 8), St 8 (lo b d 8)]\<rparr>"
  have it: "copy_iter b Ld_Sd (at_label L_copy8 \<lparr>src = s, dst = d, cnt = of_nat c, mem = m, log = l\<rparr>) = ?R1"
    by (simp only: copy_iter_eq cn) simp
  have sg: "sint (of_nat c1 - 8 :: 64 word) = int c1 - 8"
    using sint_of_nat_diff64 [of c1 8] c1(2) by simp
  have step: "copy8 b \<lparr>src = s, dst = d, cnt = of_nat c, mem = m, log = l\<rparr> =
      (if 8 \<le> c1 then copy8 b ?R1 else ?R1)"
    by (subst copy8.simps) (simp add: it Let_def word_sle_eq sg)
  show ?case
  proof (cases "8 \<le> c1")
    case False
    then have "c1 div 8 = 0" "c1 mod 8 = c1" by simp_all
    then show ?thesis
      using False by (simp add: step dv)
  next
    case True
    define n1 where "n1 = 8 * (c1 div 8)"
    have n1: "8 + n1 \<le> c" "8 * (c div 8) = 8 + n1"
      unfolding n1_def dv(1) using c1(3) by simp_all
    have dd: "adv b d 8 - adv b s 8 = d - s" by (simp add: adv_def)
    have ih: "copy8 b ?R1 =
     \<lparr>src = adv b (adv b s 8) n1, dst = adv b (adv b d 8) n1, cnt = of_nat (c1 mod 8),
      mem = moved (moved m (lo b s 8) (lo b d 8) 8)
              (lo b (adv b s 8) n1) (lo b (adv b d 8) n1) n1,
      log = (l @ [At L_copy8, Ld 8 (lo b s 8), St 8 (lo b d 8)]) @
            iter_log L_copy8 b 8 (adv b s 8) (adv b d 8) (c1 div 8)\<rparr>"
      unfolding n1_def
    proof (rule less.IH [OF c1(1)])
      show "8 \<le> c1" by (rule True)
      show "c1 < 2 ^ 63" by (rule c1)
      show "copy_ok b (adv b d 8 - adv b s 8) c1"
        unfolding dd using less.prems(3) c1 by (auto intro: copy_ok_mono)
    qed
    have ok: "copy_ok b (d - s) (8 + n1)"
      using less.prems(3) n1(1) by (rule copy_ok_mono)
    have lt: "8 + n1 < 2 ^ 63" using n1(1) less.prems(2) by simp
    have ms: "moved (moved m (lo b s 8) (lo b d 8) 8)
           (lo b (adv b s 8) n1) (lo b (adv b d 8) n1) n1
       = moved m (lo b s (8 + n1)) (lo b d (8 + n1)) (8 + n1)"
      using moved_step [OF _ lt ok, of 8 m] by simp
    have "8 * (c div 8) = 8 + n1" by (rule n1)
    then show ?thesis
      using True by (simp add: step ih ms adv_adv dv(2)) (simp add: dv(1))
  qed
qed

lemma and7_mod8: "unat ((x :: 64 word) AND 7) = unat x mod 8"
proof -
  have "(7 :: 64 word) = mask 3" by (simp add: mask_eq_exp_minus_1)
  then have "x AND 7 = take_bit 3 x" by (simp add: take_bit_eq_mask)
  then show ?thesis by (simp add: take_bit_eq_mod unat_mod)
qed

lemma and7_aligned: "(x :: 64 word) AND 7 = 0 \<longleftrightarrow> 8 dvd unat x"
  using and7_mod8 [of x] by (simp add: word_unat_eq_iff dvd_eq_mod_eq_0)

lemma and7_add8: "((x :: 64 word) + 8) AND 7 = 0 \<longleftrightarrow> x AND 7 = 0"
proof -
  have "unat (x + 8) = (unat x + 8) mod 2 ^ 64"
    by (simp add: unat_word_ariths)
  moreover have "(8 :: nat) dvd 2 ^ 64" by simp
  ultimately have "unat (x + 8) mod 8 = (unat x + 8) mod 8"
    by (simp only: mod_mod_cancel)
  then show ?thesis by (simp add: and7_aligned dvd_eq_mod_eq_0)
qed

lemma and7_sub8: "((x :: 64 word) - 8) AND 7 = 0 \<longleftrightarrow> x AND 7 = 0"
  using and7_add8 [of "x - 8"] by simp

lemma aligned_within_8:
  assumes al: "adv b s n AND 7 = 0" and wn: "w dvd n" and w8: "w dvd 8"
    and first: "\<forall>j<n. w dvd j \<longrightarrow> adv b s j AND 7 \<noteq> 0"
  shows "n < 8"
proof (rule ccontr)
  assume "\<not> n < 8"
  then have n8: "8 \<le> n" by simp
  have e: "adv b s n = (if b then adv b s (n - 8) - 8 else adv b s (n - 8) + 8)"
    using n8 by (simp add: adv_def of_nat_diff)
  have "adv b s (n - 8) AND 7 = 0"
    using al unfolding e by (simp add: and7_add8 and7_sub8 split: if_splits)
  moreover have "w dvd (n - 8)" using wn w8 n8 by (simp add: dvd_diff_nat)
  moreover have "n - 8 < n" using n8 by simp
  ultimately show False using first by blast
qed

lemma same_aligned_eq:
  assumes "0 < c" "c < 2 ^ 63" "insn_width insn dvd c" "copy_ok b (d - s) c"
  shows "\<exists>n flag.
     same_aligned b insn \<lparr>src = s, dst = d, cnt = of_nat c, mem = m, log = l\<rparr> =
       Some (flag, \<lparr>src = adv b s n, dst = adv b d n, cnt = of_nat (c - n),
                    mem = moved m (lo b s n) (lo b d n) n,
                    log = l @ iter_log L_same_aligned b (insn_width insn) s d (n div insn_width insn) @
                          (if flag then [At L_same_aligned] else [])\<rparr>)
     \<and> n \<le> c \<and> insn_width insn dvd n
     \<and> (flag \<longrightarrow> n < c \<and> adv b s n AND 7 = 0) \<and> (\<not> flag \<longrightarrow> n = c)
     \<and> (\<forall>j<n. insn_width insn dvd j \<longrightarrow> adv b s j AND 7 \<noteq> 0)"
  using assms
proof (induction c arbitrary: s d m l rule: less_induct)
  case (less c)
  let ?w = "insn_width insn"
  let ?R = "\<lparr>src = s, dst = d, cnt = of_nat c, mem = m, log = l\<rparr>"
  have w: "0 < ?w" "?w \<le> 8" by (rule width_bounds)+
  show ?case
  proof (cases "s AND 7 = 0")
    case True
    then have "same_aligned b insn ?R = Some (True, ?R\<lparr>log := l @ [At L_same_aligned]\<rparr>)"
      by (subst same_aligned.simps) (simp add: at_label_def)
    then show ?thesis
      using True less.prems(1)
      by (intro exI [where x = 0] exI [where x = True]) (simp add: adv_def lo_def)
  next
    case unal: False
    have wc: "?w \<le> c" using less.prems(1,3) by (auto dest: dvd_imp_le)
    define c1 where "c1 = c - ?w"
    have c1: "c1 < c" "c1 < 2 ^ 63" "c = ?w + c1" "c1 < 2 ^ 64"
      using wc w less.prems(2) by (simp_all add: c1_def)
    have cn: "(of_nat c - of_nat ?w :: 64 word) = of_nat c1"
      using wc by (simp add: c1_def of_nat_diff)
    let ?R1 = "\<lparr>src = adv b s ?w, dst = adv b d ?w, cnt = of_nat c1,
      mem = moved m (lo b s ?w) (lo b d ?w) ?w,
      log = l @ [At L_same_aligned, Ld ?w (lo b s ?w), St ?w (lo b d ?w)]\<rparr>"
    have it: "copy_iter b insn (at_label L_same_aligned ?R) = ?R1"
      by (simp only: copy_iter_eq cn)
    have step: "same_aligned b insn ?R =
        (if c1 = 0 then Some (False, ?R1) else same_aligned b insn ?R1)"
      using unal by (subst same_aligned.simps)
        (simp add: it Let_def of_nat_eq_0_64 [OF c1(4)], simp add: at_label_def)
    have j0: "\<forall>j<?w. ?w dvd j \<longrightarrow> adv b s j AND 7 \<noteq> 0"
    proof (intro allI impI)
      fix j assume "j < ?w" "?w dvd j"
      then have "j = 0" by (auto dest: dvd_imp_le)
      then show "adv b s j AND 7 \<noteq> 0" using unal by (simp add: adv_def)
    qed
    show ?thesis
    proof (cases "c1 = 0")
      case True
      then have cw: "c = ?w" using c1(3) by simp
      have "same_aligned b insn ?R = Some (False, ?R1)"
        using True by (simp add: step)
      then show ?thesis
        using True cw w j0
        by (intro exI [where x = c] exI [where x = False]) simp
    next
      case False
      have dd: "adv b d ?w - adv b s ?w = d - s" by (simp add: adv_def)
      have "\<exists>n flag.
         same_aligned b insn ?R1 =
           Some (flag, \<lparr>src = adv b (adv b s ?w) n, dst = adv b (adv b d ?w) n,
                        cnt = of_nat (c1 - n),
                        mem = moved (moved m (lo b s ?w) (lo b d ?w) ?w)
                                (lo b (adv b s ?w) n) (lo b (adv b d ?w) n) n,
                        log = (l @ [At L_same_aligned, Ld ?w (lo b s ?w), St ?w (lo b d ?w)]) @
                              iter_log L_same_aligned b ?w (adv b s ?w) (adv b d ?w) (n div ?w) @
                              (if flag then [At L_same_aligned] else [])\<rparr>)
         \<and> n \<le> c1 \<and> ?w dvd n
         \<and> (flag \<longrightarrow> n < c1 \<and> adv b (adv b s ?w) n AND 7 = 0) \<and> (\<not> flag \<longrightarrow> n = c1)
         \<and> (\<forall>j<n. ?w dvd j \<longrightarrow> adv b (adv b s ?w) j AND 7 \<noteq> 0)"
      proof (rule less.IH [OF c1(1)])
        show "0 < c1" using False by simp
        show "c1 < 2 ^ 63" by (rule c1)
        show "?w dvd c1" using less.prems(3) wc by (simp add: c1_def dvd_diff_nat)
        show "copy_ok b (adv b d ?w - adv b s ?w) c1"
          unfolding dd using less.prems(4) c1 by (auto intro: copy_ok_mono)
      qed
      then obtain n1 flag where
        run: "same_aligned b insn ?R1 =
           Some (flag, \<lparr>src = adv b (adv b s ?w) n1, dst = adv b (adv b d ?w) n1,
                        cnt = of_nat (c1 - n1),
                        mem = moved (moved m (lo b s ?w) (lo b d ?w) ?w)
                                (lo b (adv b s ?w) n1) (lo b (adv b d ?w) n1) n1,
                        log = (l @ [At L_same_aligned, Ld ?w (lo b s ?w), St ?w (lo b d ?w)]) @
                              iter_log L_same_aligned b ?w (adv b s ?w) (adv b d ?w) (n1 div ?w) @
                              (if flag then [At L_same_aligned] else [])\<rparr>)"
        and n1: "n1 \<le> c1" "?w dvd n1"
        and fl: "flag \<longrightarrow> n1 < c1 \<and> adv b (adv b s ?w) n1 AND 7 = 0" "\<not> flag \<longrightarrow> n1 = c1"
        and jj: "\<forall>j<n1. ?w dvd j \<longrightarrow> adv b (adv b s ?w) j AND 7 \<noteq> 0"
        by blast
      define n where "n = ?w + n1"
      have n: "n \<le> c" "?w \<le> n" "n - ?w = n1" "c - n = c1 - n1" "n < 2 ^ 63"
        using n1(1) c1 less.prems(2) by (simp_all add: n_def)
      have dv: "n div ?w = Suc (n1 div ?w)"
        using w le_div_geq [of ?w n] by (simp add: n_def)
      have ok: "copy_ok b (d - s) n"
        using less.prems(4) n(1) by (rule copy_ok_mono)
      have ms: "moved (moved m (lo b s ?w) (lo b d ?w) ?w)
             (lo b (adv b s ?w) n1) (lo b (adv b d ?w) n1) n1
         = moved m (lo b s n) (lo b d n) n"
        using moved_step [OF n(2) n(5) ok, of m] by (simp add: n(3))
      have aa: "adv b (adv b s ?w) n1 = adv b s n" "adv b (adv b d ?w) n1 = adv b d n"
        by (simp_all add: adv_adv n_def)
      have res: "same_aligned b insn ?R =
         Some (flag, \<lparr>src = adv b s n, dst = adv b d n, cnt = of_nat (c - n),
                    mem = moved m (lo b s n) (lo b d n) n,
                    log = l @ iter_log L_same_aligned b ?w s d (n div ?w) @
                          (if flag then [At L_same_aligned] else [])\<rparr>)"
        using False by (simp add: step run ms aa n(4) dv)
      have jn: "\<forall>j<n. ?w dvd j \<longrightarrow> adv b s j AND 7 \<noteq> 0"
      proof (intro allI impI)
        fix j assume j: "j < n" "?w dvd j"
        show "adv b s j AND 7 \<noteq> 0"
        proof (cases "j < ?w")
          case True
          with j0 j show ?thesis by blast
        next
          case False
          then have "j - ?w < n1" "?w dvd (j - ?w)" "j = ?w + (j - ?w)"
            using j by (simp_all add: n_def dvd_diff_nat)
          with jj have "adv b (adv b s ?w) (j - ?w) AND 7 \<noteq> 0" by blast
          moreover have "adv b (adv b s ?w) (j - ?w) = adv b s j"
            using False by (simp add: adv_adv)
          ultimately show ?thesis by simp
        qed
      qed
      have "n \<le> c \<and> ?w dvd n
         \<and> (flag \<longrightarrow> n < c \<and> adv b s n AND 7 = 0) \<and> (\<not> flag \<longrightarrow> n = c)"
        using n1 fl c1(3) unfolding aa by (auto simp: n_def)
      with res jn show ?thesis by blast
    qed
  qed
qed

lemma adv_0 [simp]: "adv b a 0 = a"
  by (simp add: adv_def)

lemma lo_0 [simp]: "lo b a 0 = a"
  by (simp add: lo_def)

lemma after_copy8_eq:
  assumes c8: "8 \<le> c" and c: "c < 2 ^ 63" and wc: "insn_width insn dvd c"
    and ok: "copy_ok b (d - s) c"
  shows "after_copy8 b insn \<lparr>src = s, dst = d, cnt = of_nat c, mem = m, log = l\<rparr> =
     \<lparr>src = adv b s c, dst = adv b d c, cnt = 0,
      mem = moved m (lo b s c) (lo b d c) c,
      log = l @ iter_log L_copy8 b 8 s d (c div 8) @
            iter_log L_copy_small b (insn_width insn) (adv b s (8 * (c div 8))) (adv b d (8 * (c div 8)))
              ((c mod 8) div insn_width insn)\<rparr>"
proof -
  let ?w = "insn_width insn"
  define n where "n = 8 * (c div 8)"
  define c' where "c' = c mod 8"
  have nc: "n \<le> c" "c - n = c'" "c = n + c'" "c' < 2 ^ 64" "c' < 2 ^ 63" "c' < 8"
    using c by (simp_all add: n_def c'_def minus_mult_div_eq_mod)
  let ?R8 = "\<lparr>src = adv b s n, dst = adv b d n, cnt = of_nat c',
      mem = moved m (lo b s n) (lo b d n) n,
      log = l @ iter_log L_copy8 b 8 s d (c div 8)\<rparr>"
  have r8: "copy8 b \<lparr>src = s, dst = d, cnt = of_nat c, mem = m, log = l\<rparr> = ?R8"
    using copy8_eq [OF c8 c ok, of m l] by (simp add: n_def c'_def)
  have step: "after_copy8 b insn \<lparr>src = s, dst = d, cnt = of_nat c, mem = m, log = l\<rparr> =
      (if c' = 0 then ?R8 else copy_small b insn ?R8)"
    by (simp add: after_copy8_def r8 Let_def of_nat_eq_0_64 [OF nc(4)])
  show ?thesis
  proof (cases "c' = 0")
    case True
    then have "n = c" using nc(3) by simp
    then show ?thesis
      using True by (simp add: step flip: n_def c'_def)
  next
    case False
    have dd: "adv b d n - adv b s n = d - s" by (simp add: adv_def)
    have wc': "?w dvd c'"
      unfolding c'_def using wc width_dvd8 [of insn] by (rule dvd_mod)
    have ok': "copy_ok b (adv b d n - adv b s n) c'"
      unfolding dd using ok nc by (auto intro: copy_ok_mono)
    have sm: "copy_small b insn ?R8 =
       \<lparr>src = adv b (adv b s n) c', dst = adv b (adv b d n) c', cnt = 0,
        mem = moved (moved m (lo b s n) (lo b d n) n)
                (lo b (adv b s n) c') (lo b (adv b d n) c') c',
        log = (l @ iter_log L_copy8 b 8 s d (c div 8)) @
              iter_log L_copy_small b ?w (adv b s n) (adv b d n) (c' div ?w)\<rparr>"
      using False by (intro copy_small_eq nc(5) wc' ok') simp
    have ms: "moved (moved m (lo b s n) (lo b d n) n)
                (lo b (adv b s n) c') (lo b (adv b d n) c') c'
            = moved m (lo b s c) (lo b d c) c"
      using moved_step [OF nc(1) c ok, of m] by (simp add: nc(2))
    show ?thesis
      using False by (simp add: step sm ms adv_adv flip: nc(3) n_def c'_def)
  qed
qed

lemma push_bit_width:
  "push_bit (exact_log2 (insn_width insn)) (of_nat n :: 64 word) = of_nat (n * insn_width insn)"
  by (cases insn) (simp_all add: push_bit_eq_mult)

lemma copy_memory_code_aligned:
  assumes n: "0 < n" and N: "n * insn_width insn < 2 ^ 63"
    and ok: "copy_ok b (d - s) (n * insn_width insn)"
  shows "copy_memory_code True b insn s d (of_nat n) m l =
     Some \<lparr>src = adv b (start_ptr b s (n * insn_width insn)) (n * insn_width insn),
           dst = adv b (start_ptr b d (n * insn_width insn)) (n * insn_width insn),
           cnt = 0,
           mem = moved m s d (n * insn_width insn),
           log = l @ iter_log L_copy8 b 8
                       (start_ptr b s (n * insn_width insn))
                       (start_ptr b d (n * insn_width insn))
                       (n * insn_width insn div 8) @
                 iter_log L_copy_small b (insn_width insn)
                   (adv b (start_ptr b s (n * insn_width insn))
                      (8 * (n * insn_width insn div 8)))
                   (adv b (start_ptr b d (n * insn_width insn))
                      (8 * (n * insn_width insn div 8)))
                   ((n * insn_width insn mod 8) div insn_width insn)\<rparr>"
proof -
  let ?w = "insn_width insn"
  define c where "c = n * ?w"
  define S where "S = start_ptr b s c"
  define D where "D = start_ptr b d c"
  have w: "0 < ?w" "?w \<le> 8" by (rule width_bounds)+
  have nle: "n \<le> n * ?w" using w by simp
  have "n < 2 ^ 63" using nle N by (rule le_less_trans)
  then have n64: "n < 2 ^ 64" by simp
  have c: "0 < c" "c < 2 ^ 63" "?w dvd c" "n \<le> c" "n < 2 ^ 64"
    using n N w nle n64 by (simp_all add: c_def)
  have nz: "(of_nat n :: 64 word) \<noteq> 0"
    using n by (simp add: of_nat_eq_0_64 [OF c(5)])
  have dd: "D - S = d - s" by (simp add: S_def D_def start_ptr_def)
  have ok': "copy_ok b (D - S) c" unfolding dd using ok by (simp add: c_def)
  have los: "lo b S c = s" "lo b D c = d"
    by (simp_all add: lo_def S_def D_def start_ptr_def)
  have sg: "0 \<le>s (of_nat c - 8 :: 64 word) \<longleftrightarrow> 8 \<le> c"
    using sint_of_nat_diff64 [of c 8] c(2) by (simp add: word_sle_eq)
  let ?R = "\<lparr>src = S, dst = D, cnt = of_nat c, mem = m, log = l\<rparr>"
  have step: "copy_memory_code True b insn s d (of_nat n) m l =
      (if 8 \<le> c then Some (after_copy8 b insn ?R) else Some (copy_small b insn ?R))"
    using nz unfolding copy_memory_code_def push_bit_width Let_def
    by (simp add: sg S_def D_def start_ptr_def del: exact_log2.simps flip: c_def)
  show ?thesis
  proof (cases "8 \<le> c")
    case True
    from after_copy8_eq [OF True c(2) c(3) ok', of m l] True
    show ?thesis
      by (simp add: step los flip: c_def S_def D_def)
  next
    case False
    then have "c div 8 = 0" "c mod 8 = c" by simp_all
    with copy_small_eq [OF c(1) c(2) c(3) ok', of m l] False
    show ?thesis
      by (simp add: step los flip: c_def S_def D_def)
  qed
qed

lemma copy_memory_code_mem:
  assumes N: "n * insn_width insn < 2 ^ 63"
    and ok: "copy_ok b (d - s) (n * insn_width insn)"
  shows "\<exists>r. copy_memory_code al b insn s d (of_nat n) m l = Some r
           \<and> mem r = moved m s d (n * insn_width insn)"
proof (cases "n = 0")
  case True
  then show ?thesis by (simp add: copy_memory_code_def)
next
  case False
  then have n: "0 < n" by simp
  let ?w = "insn_width insn"
  define c where "c = n * ?w"
  define S where "S = start_ptr b s c"
  define D where "D = start_ptr b d c"
  have w: "0 < ?w" "?w \<le> 8" by (rule width_bounds)+
  have nle: "n \<le> n * ?w" using w by simp
  have "n < 2 ^ 63" using nle N by (rule le_less_trans)
  then have n64: "n < 2 ^ 64" by simp
  have c: "0 < c" "c < 2 ^ 63" "?w dvd c"
    using n N w by (simp_all add: c_def)
  have nz: "(of_nat n :: 64 word) \<noteq> 0"
    using n by (simp add: of_nat_eq_0_64 [OF n64])
  have dd: "D - S = d - s" by (simp add: S_def D_def start_ptr_def)
  have ok': "copy_ok b (D - S) c" unfolding dd using ok by (simp add: c_def)
  have los: "lo b S c = s" "lo b D c = d"
    by (simp_all add: lo_def S_def D_def start_ptr_def)
  have sg: "(of_nat c :: 64 word) <s 16 \<longleftrightarrow> c < 16"
    using sint_of_nat64 [OF c(2)] by (simp add: word_sless_alt)
  let ?R = "\<lparr>src = S, dst = D, cnt = of_nat c, mem = m, log = l\<rparr>"
  show ?thesis
  proof (cases al)
    case True
    from copy_memory_code_aligned [OF n N ok, of m l] True
    show ?thesis by simp
  next
    case nal: False
    have step: "copy_memory_code al b insn s d (of_nat n) m l =
        (if c < 16 then Some (copy_small b insn ?R)
         else if (S XOR D) AND 7 \<noteq> 0 then Some (copy_small b insn ?R)
         else (case same_aligned b insn ?R of
                    None \<Rightarrow> None
                  | Some (True, r') \<Rightarrow> Some (after_copy8 b insn r')
                  | Some (False, r') \<Rightarrow> Some r'))"
      using nz nal unfolding copy_memory_code_def push_bit_width Let_def
      by (simp add: sg S_def D_def start_ptr_def del: exact_log2.simps flip: c_def)
    have small: "mem (copy_small b insn ?R) = moved m s d c"
      using copy_small_eq [OF c(1) c(2) c(3) ok', of m l] by (simp add: los)
    show ?thesis
    proof (cases "c < 16 \<or> (S XOR D) AND 7 \<noteq> 0")
      case True
      then show ?thesis using small by (auto simp: step simp flip: c_def)
    next
      case False
      then have c16: "16 \<le> c" by simp
      from same_aligned_eq [OF c(1) c(2) c(3) ok', of m l]
      obtain n1 flag where
        run: "same_aligned b insn ?R =
           Some (flag, \<lparr>src = adv b S n1, dst = adv b D n1, cnt = of_nat (c - n1),
                        mem = moved m (lo b S n1) (lo b D n1) n1,
                        log = l @ iter_log L_same_aligned b ?w S D (n1 div ?w) @
                          (if flag then [At L_same_aligned] else [])\<rparr>)"
        and n1: "n1 \<le> c" "?w dvd n1"
        and fl: "flag \<longrightarrow> n1 < c \<and> adv b S n1 AND 7 = 0" "\<not> flag \<longrightarrow> n1 = c"
        and jj: "\<forall>j<n1. ?w dvd j \<longrightarrow> adv b S j AND 7 \<noteq> 0"
        by blast
      show ?thesis
      proof (cases flag)
        case nf: False
        then have "n1 = c" using fl by simp
        then show ?thesis
          using False nf by (simp add: step run los flip: c_def)
      next
        case True
        then have al: "adv b S n1 AND 7 = 0" using fl by simp
        have n8: "n1 < 8"
          using al n1(2) width_dvd8 jj by (rule aligned_within_8)
        define c' where "c' = c - n1"
        have c': "8 \<le> c'" "c' < 2 ^ 63" "?w dvd c'" "c - n1 = c'"
          using n8 c16 c(2) c(3) n1 by (simp_all add: c'_def dvd_diff_nat)
        have dd': "adv b D n1 - adv b S n1 = D - S" by (simp add: adv_def)
        have ok'': "copy_ok b (adv b D n1 - adv b S n1) c'"
          unfolding dd' using ok' by (rule copy_ok_mono) (simp add: c'_def)
        have ms: "moved (moved m (lo b S n1) (lo b D n1) n1)
                (lo b (adv b S n1) c') (lo b (adv b D n1) c') c'
            = moved m s d c"
          using moved_step [OF n1(1) c(2) ok', of m] by (simp add: c' los)
        from after_copy8_eq [OF c'(1) c'(2) c'(3) ok'',
            of "moved m (lo b S n1) (lo b D n1) n1"
              "l @ iter_log L_same_aligned b ?w S D (n1 div ?w) @ [At L_same_aligned]"]
        have "mem (after_copy8 b insn \<lparr>src = adv b S n1, dst = adv b D n1, cnt = of_nat c',
                        mem = moved m (lo b S n1) (lo b D n1) n1,
                        log = l @ iter_log L_same_aligned b ?w S D (n1 div ?w) @
                          (if flag then [At L_same_aligned] else [])\<rparr>) = moved m s d c"
          using True by (simp add: ms)
        then show ?thesis
          using False True by (simp add: step run c'(4) flip: c_def)
      qed
    qed
  qed
qed

lemma oracle_copy_moved:
  assumes "n * sz < 2 ^ 64"
  shows "oracle_copy m s d n sz = moved m s d (n * sz)"
  using assms
proof (induction n)
  case 0
  then show ?case by (simp add: oracle_copy_def)
next
  case (Suc n)
  have b: "n * sz < 2 ^ 64" "n * sz + sz < 2 ^ 64" using Suc.prems by (simp_all add: add.commute)
  have ih: "oracle_copy m s d n sz = moved m s d (n * sz)"
    using Suc.IH b by simp
  have st: "oracle_copy m s d (Suc n) sz =
      (\<lambda>x. if unat (x - (d + of_nat (n * sz))) < sz
           then m (s + of_nat (n * sz) + (x - (d + of_nat (n * sz))))
           else oracle_copy m s d n sz x)"
    unfolding oracle_copy_def by (simp del: of_nat_mult)
  show ?case
  proof (rule ext)
    fix x
    define y where "y = x - d"
    have uP: "unat (of_nat (n * sz) :: 64 word) = n * sz"
      using b(1) by (rule unat_of_nat64)
    have e1: "x - (d + of_nat (n * sz)) = y - of_nat (n * sz)"
      by (simp add: y_def del: of_nat_mult)
    have e2: "s + of_nat (n * sz) + (y - of_nat (n * sz)) = s + y"
      by (simp del: of_nat_mult)
    have sub1: "unat (y - of_nat (n * sz)) =
        (if n * sz \<le> unat y then unat y - n * sz else unat y + 2 ^ 64 - n * sz)"
      unfolding unat_sub64 uP by simp
    have yb: "unat y < 2 ^ 64" by (rule unat_lt64)
    have "oracle_copy m s d (Suc n) sz x =
        (if unat (y - of_nat (n * sz)) < sz then m (s + y)
         else if unat y < n * sz then m (s + y) else m x)"
      by (simp add: st ih moved_def e1 e2 del: of_nat_mult flip: y_def)
    also have "\<dots> = (if unat y < n * sz + sz then m (s + y) else m x)"
      using sub1 b yb by auto
    also have "\<dots> = moved m s d (Suc n * sz) x"
      by (simp add: moved_def add.commute flip: y_def)
    finally show "oracle_copy m s d (Suc n) sz x = moved m s d (Suc n * sz) x" .
  qed
qed

lemma select_insn_width:
  assumes "sz = 1 \<or> sz = 2 \<or> sz = 4 \<or> sz = 8"
  shows "\<exists>insn. select_insn sz = Inr insn \<and> insn_width insn = sz"
  using assms by auto

lemma copy_memory_mem:
  assumes sz: "sz = 1 \<or> sz = 2 \<or> sz = 4 \<or> sz = 8"
    and st: "step = int sz \<or> step = - int sz"
    and N: "n * sz < 2 ^ 63"
    and ok: "copy_ok (step < 0) (d - s) (n * sz)"
  shows "\<exists>lg'. copy_memory al s d (of_nat n) step m lg = Inr (Some (moved m s d (n * sz), lg'))"
proof -
  from select_insn_width [OF sz] obtain insn where
    insn: "select_insn sz = Inr insn" "insn_width insn = sz" by blast
  have u: "uabs step = sz" using st by (auto simp: uabs_def)
  from copy_memory_code_mem [of n insn "step < 0" d s al m lg] N ok insn(2)
  obtain r where "copy_memory_code al (step < 0) insn s d (of_nat n) m lg = Some r"
    "mem r = moved m s d (n * sz)" by auto
  then show ?thesis
    unfolding copy_memory_def Let_def u insn(1) by simp
qed

lemma push_bit_size:
  assumes "sz = 1 \<or> sz = 2 \<or> sz = 4 \<or> sz = 8"
  shows "push_bit (exact_log2 sz) (of_nat n :: 64 word) = of_nat (n * sz)"
  using assms by (auto simp: push_bit_eq_mult)

lemma iter_log_fwd: "iter_log lab False w s d k = fwd_iters lab w s d k"
proof (induction k arbitrary: s d)
  case 0
  then show ?case by (simp add: fwd_iters_def)
next
  case (Suc k)
  have "[0..<Suc k] = 0 # map Suc [0..<k]"
    by (simp add: upt_conv_Cons map_Suc_upt del: upt_Suc)
  then have "fwd_iters lab w s d (Suc k) =
      [At lab, Ld w s, St w d] @ fwd_iters lab w (s + of_nat w) (d + of_nat w) k"
    by (simp add: fwd_iters_def comp_def algebra_simps del: upt_Suc)
  then show ?case
    using Suc.IH [of "s + of_nat w" "d + of_nat w"] by (simp add: lo_def adv_def)
qed

lemma disjoint_aligned_run:
  assumes sz: "sz = 1 \<or> sz = 2 \<or> sz = 4 \<or> sz = 8"
    and N: "n * sz < 2 ^ 63"
    and ok: "d - s = 0 \<or> n * sz \<le> unat (d - s)"
  shows "generate_disjoint_copy sz True is_oop s d (of_nat n) m =
     Inr (Some (0, moved m s d (n * sz),
       [ArraycopyPrologue is_oop s d (of_nat n)] @
       fwd_iters L_copy8 8 s d (n * sz div 8) @
       fwd_iters L_copy_small sz
         (s + of_nat (8 * (n * sz div 8))) (d + of_nat (8 * (n * sz div 8)))
         ((n * sz mod 8) div sz) @
       [ArraycopyEpilogue is_oop d (of_nat n)]))"
proof -
  from select_insn_width [OF sz] obtain insn where
    insn: "select_insn sz = Inr insn" "insn_width insn = sz" by blast
  have u: "uabs (int sz) = sz" by (simp add: uabs_def)
  have ok': "copy_ok False (d - s) (n * insn_width insn)"
    using ok by (simp add: copy_ok_def insn(2))
  show ?thesis
  proof (cases "n = 0")
    case True
    then show ?thesis
      unfolding generate_disjoint_copy_def copy_memory_def Let_def u insn(1)
      by (simp add: copy_memory_code_def fwd_iters_def)
  next
    case False
    then have n: "0 < n" by simp
    have N': "n * insn_width insn < 2 ^ 63" using N by (simp add: insn(2))
    show ?thesis
      unfolding generate_disjoint_copy_def copy_memory_def Let_def u insn(1)
      using copy_memory_code_aligned [OF n N' ok', of m "[ArraycopyPrologue is_oop s d (of_nat n)]"]
      by (simp add: insn(2) iter_log_fwd start_ptr_def adv_def)
  qed
qed

text \<open>
  C7 (as amended).  In the disjoint copy generated with \<open>aligned = true\<close>, for a
  source and destination that do not overlap, the fast-path loop \<open>copy8\<close> moves one
  8-byte machine word per pass and makes \<open>n * sz div 8\<close> passes; it is followed
  directly by the tail loop \<open>copy_small\<close>, which moves the remaining
  \<open>n * sz mod 8\<close> bytes one element per pass.  There is no pass that moves a block of
  8 words and no drain step for 4, 2 or 1 words.
\<close>

theorem disjoint_aligned_loop_shape:
  assumes sz: "sz = 1 \<or> sz = 2 \<or> sz = 4 \<or> sz = 8"
    and N: "n * sz < 2 ^ 63"
    and ok: "d - s = 0 \<or> n * sz \<le> unat (d - s)"
  shows "stub_log (generate_disjoint_copy sz True is_oop s d (of_nat n) m) =
       [ArraycopyPrologue is_oop s d (of_nat n)] @
       fwd_iters L_copy8 8 s d (n * sz div 8) @
       fwd_iters L_copy_small sz
         (s + of_nat (8 * (n * sz div 8))) (d + of_nat (8 * (n * sz div 8)))
         ((n * sz mod 8) div sz) @
       [ArraycopyEpilogue is_oop d (of_nat n)]"
  by (simp add: disjoint_aligned_run [OF sz N ok] stub_log_def del: of_nat_mult)

text \<open>
  C2.  For an element size of 1, 2, 4 or 8 bytes and a byte count below \<open>2^63\<close>: when
  \<open>d - s\<close> is at least \<open>n * sz\<close> as unsigned numbers the conjoint stub is the
  disjoint forward copy, otherwise it is \<open>copy_memory\<close> with the negative step, which
  walks down from the high end; and in every case, whatever the overlap, the stub returns
  0 and leaves the memory that the naive element-by-element copy from the pristine memory
  produces.
\<close>

theorem conjoint_copy_matches_oracle:
  assumes sz: "sz = 1 \<or> sz = 2 \<or> sz = 4 \<or> sz = 8"
    and N: "n * sz < 2 ^ 63"
  shows "(of_nat (n * sz) \<le> d - s \<longrightarrow>
            generate_conjoint_copy sz aligned is_oop (generate_disjoint_copy sz aligned is_oop)
              s d (of_nat n) m
          = generate_disjoint_copy sz aligned is_oop s d (of_nat n) m)
       \<and> (d - s < of_nat (n * sz) \<longrightarrow>
            generate_conjoint_copy sz aligned is_oop (generate_disjoint_copy sz aligned is_oop)
              s d (of_nat n) m
          = (case copy_memory aligned s d (of_nat n) (- int sz) m
                    [ArraycopyPrologue is_oop s d (of_nat n)] of
               Inl e \<Rightarrow> Inl e
             | Inr None \<Rightarrow> Inr None
             | Inr (Some (m', lg)) \<Rightarrow>
                 Inr (Some (0, m', lg @ [ArraycopyEpilogue is_oop d (of_nat n)]))))
       \<and> (\<exists>lg. generate_conjoint_copy sz aligned is_oop (generate_disjoint_copy sz aligned is_oop)
              s d (of_nat n) m
          = Inr (Some (0, oracle_copy m s d n sz, lg)))"
proof -
  let ?conj = "generate_conjoint_copy sz aligned is_oop (generate_disjoint_copy sz aligned is_oop)
              s d (of_nat n) m"
  have N64: "n * sz < 2 ^ 64" using N by simp
  have pb: "push_bit (exact_log2 sz) (of_nat n :: 64 word) = of_nat (n * sz)"
    using sz by (rule push_bit_size)
  have uN: "unat (of_nat (n * sz) :: 64 word) = n * sz"
    using N64 by (rule unat_of_nat64)
  have orc: "oracle_copy m s d n sz = moved m s d (n * sz)"
    using N64 by (rule oracle_copy_moved)
  have fwd: "?conj = generate_disjoint_copy sz aligned is_oop s d (of_nat n) m"
    if "of_nat (n * sz) \<le> d - s"
    using that unfolding generate_conjoint_copy_def Let_def pb by (simp only: if_True)
  have bwd: "?conj = (case copy_memory aligned s d (of_nat n) (- int sz) m
                    [ArraycopyPrologue is_oop s d (of_nat n)] of
               Inl e \<Rightarrow> Inl e
             | Inr None \<Rightarrow> Inr None
             | Inr (Some (m', lg)) \<Rightarrow>
                 Inr (Some (0, m', lg @ [ArraycopyEpilogue is_oop d (of_nat n)])))"
    if "d - s < of_nat (n * sz)"
  proof -
    from that have "\<not> of_nat (n * sz) \<le> d - s" by (simp only: not_le)
    then show ?thesis
      unfolding generate_conjoint_copy_def Let_def pb by (simp only: if_False)
  qed
  have res: "\<exists>lg. ?conj = Inr (Some (0, oracle_copy m s d n sz, lg))"
  proof (cases "of_nat (n * sz) \<le> d - s")
    case True
    then have "n * sz \<le> unat (d - s)"
      unfolding word_le_nat_alt uN .
    then have ok: "copy_ok (int sz < 0) (d - s) (n * sz)"
      by (simp add: copy_ok_def)
    from copy_memory_mem [OF sz _ N ok, of aligned m "[ArraycopyPrologue is_oop s d (of_nat n)]"]
    obtain lg' where "copy_memory aligned s d (of_nat n) (int sz) m
        [ArraycopyPrologue is_oop s d (of_nat n)] = Inr (Some (moved m s d (n * sz), lg'))"
      by auto
    then show ?thesis
      by (simp add: fwd [OF True] generate_disjoint_copy_def orc)
  next
    case False
    then have lt: "d - s < of_nat (n * sz)" by (simp add: not_le)
    then have "unat (d - s) < n * sz"
      unfolding word_less_nat_alt uN .
    moreover have "0 < sz" using sz by auto
    ultimately have ok: "copy_ok (- int sz < 0) (d - s) (n * sz)"
      using N by (simp add: copy_ok_def)
    from copy_memory_mem [OF sz _ N ok, of aligned m "[ArraycopyPrologue is_oop s d (of_nat n)]"]
    obtain lg' where "copy_memory aligned s d (of_nat n) (- int sz) m
        [ArraycopyPrologue is_oop s d (of_nat n)] = Inr (Some (moved m s d (n * sz), lg'))"
      by auto
    then show ?thesis
      by (simp add: bwd [OF lt] orc)
  qed
  from fwd bwd res show ?thesis by blast
qed

text \<open>
  C10.  With an element count of zero the checkcasting stub returns 0 at once: the heap
  is unchanged and the trace is empty, so no element is loaded or stored and neither the
  barrier prologue nor the epilogue is called.  The code emitted by \<open>copy_memory\<close>,
  where a granularity of 1, 2, 4 or 8 lets it be emitted at all, leaves memory and trace
  as they were when its count is zero.
\<close>

theorem zero_count_no_access:
  "generate_checkcast_copy env from to 0 ckoff ckval heap = (0, heap, [])
   \<and> copy_memory al s d 0 step m lg =
       (case select_insn (uabs step) of Inl e \<Rightarrow> Inl e | Inr insn \<Rightarrow> Inr (Some (m, lg)))"
  by (simp add: generate_checkcast_copy_def copy_memory_def copy_memory_code_def Let_def
        split: sum.splits)

theorem conjoint_copy_matches_oracle_witness:
  "stub_mem mem0 (generate_conjoint_copy 1 False False (generate_disjoint_copy 1 False False)
      0x1003 0x1004 20 mem0) 0x1017 = 0x16
   \<and> stub_mem mem0 (generate_conjoint_copy 1 False False (generate_disjoint_copy 1 False False)
      0x1003 0x1004 20 mem0) 0x1004 = 0x03
   \<and> stub_mem mem0 (generate_conjoint_copy 1 False False (generate_disjoint_copy 1 False False)
      0x1003 0x1004 20 mem0) 0x1018 = 0x18"
proof -
  have sz: "(1::nat) = 1 \<or> (1::nat) = 2 \<or> (1::nat) = 4 \<or> (1::nat) = 8" by simp
  have N: "(20::nat) * 1 < 2 ^ 63" by simp
  have n: "(of_nat 20 :: 64 word) = 20" by simp
  from conjoint_copy_matches_oracle [OF sz N, of "0x1004" "0x1003" False False mem0]
  obtain lg where
    "generate_conjoint_copy 1 False False (generate_disjoint_copy 1 False False)
       0x1003 0x1004 (of_nat 20) mem0 = Inr (Some (0, oracle_copy mem0 0x1003 0x1004 20 1, lg))"
    by blast
  then have run: "stub_mem mem0 (generate_conjoint_copy 1 False False
       (generate_disjoint_copy 1 False False) 0x1003 0x1004 20 mem0)
      = oracle_copy mem0 0x1003 0x1004 20 1"
    unfolding n by (simp add: stub_mem_def)
  have orc: "oracle_copy mem0 0x1003 0x1004 20 1 = moved mem0 0x1003 0x1004 (20 * 1)"
    by (rule oracle_copy_moved) simp
  show ?thesis
    unfolding run orc by (simp add: moved_def mem0_def)
qed

theorem disjoint_aligned_loop_shape_witness:
  "stub_log (generate_disjoint_copy 2 True False 0x1000 0x2000 5 mem0) =
     [ArraycopyPrologue False 0x1000 0x2000 5,
      At L_copy8, Ld 8 0x1000, St 8 0x2000,
      At L_copy_small, Ld 2 0x1008, St 2 0x2008,
      ArraycopyEpilogue False 0x2000 5]"
proof -
  have sz: "(2::nat) = 1 \<or> (2::nat) = 2 \<or> (2::nat) = 4 \<or> (2::nat) = 8" by simp
  have N: "(5::nat) * 2 < 2 ^ 63" by simp
  have ok: "(0x2000 :: 64 word) - 0x1000 = 0 \<or> 5 * 2 \<le> unat ((0x2000 :: 64 word) - 0x1000)"
    by simp
  have n: "(of_nat 5 :: 64 word) = 5" by simp
  from disjoint_aligned_loop_shape [OF sz N ok, of False mem0]
  show ?thesis
    unfolding n by (simp add: fwd_iters_def)
qed

text \<open>
  C7 as stated fails: in an aligned disjoint copy of exactly 8 words the bulk loop is
  entered 8 times, and the second word is loaded by a pass of its own.
\<close>

theorem bulk_loop_eight_words_counterexample:
  "count_list (stub_log (generate_disjoint_copy 8 True False 0x1000 0x2000 8 mem0)) (At L_copy8) = 8
   \<and> take 7 (stub_log (generate_disjoint_copy 8 True False 0x1000 0x2000 8 mem0)) =
       [ArraycopyPrologue False 0x1000 0x2000 8,
        At L_copy8, Ld 8 0x1000, St 8 0x2000,
        At L_copy8, Ld 8 0x1008, St 8 0x2008]"
proof -
  have sz: "(8::nat) = 1 \<or> (8::nat) = 2 \<or> (8::nat) = 4 \<or> (8::nat) = 8" by simp
  have N: "(8::nat) * 8 < 2 ^ 63" by simp
  have ok: "(0x2000 :: 64 word) - 0x1000 = 0 \<or> 8 * 8 \<le> unat ((0x2000 :: 64 word) - 0x1000)"
    by simp
  have n: "(of_nat 8 :: 64 word) = 8" by simp
  have u: "[0..<8] = [0, 1, 2, 3, 4, 5, 6, 7]" by (simp add: upt_rec)
  from disjoint_aligned_run [OF sz N ok, of False mem0]
  show ?thesis
    unfolding n by (simp add: stub_log_def fwd_iters_def u)
qed

section \<open>Properties of the G1 post-write barrier\<close>

lemma xor_eq_0_word:
  "x XOR y = 0 \<longleftrightarrow> x = (y :: 64 word)"
  by (auto simp: bit_eq_iff bit_xor_iff)

text \<open>
  C8. The post-write barrier leaves the card table, the dirty-card queue and the trace of
  accesses exactly as they were whenever the store address and the new value lie in the
  same heap region or the new value is null.  The same-region test is the one the code
  makes: the XOR of the two addresses shifted right by the region-size log is zero.
  Conversely, a run that changes anything (a card load, a card mark, a log append, a
  runtime call) is a run with a region-crossing, non-null store, and such a run does start
  with the load of the card of the store address.
\<close>

theorem g1_post_barrier_noop:
  "(same_region cfg store_addr new_val \<or> new_val = 0 \<longrightarrow>
      g1_write_barrier_post cfg store_addr new_val st = st)
   \<and> (g1_write_barrier_post cfg store_addr new_val st \<noteq> st \<longrightarrow>
      \<not> same_region cfg store_addr new_val \<and> new_val \<noteq> 0)
   \<and> (same_region cfg store_addr new_val \<longleftrightarrow>
      drop_bit (LogOfHRGrainBytes cfg) (store_addr XOR new_val) = 0)
   \<and> (\<not> same_region cfg store_addr new_val \<and> new_val \<noteq> 0 \<longrightarrow>
      (\<exists>evs. g1_trace (g1_write_barrier_post cfg store_addr new_val st) =
         g1_trace st @ CardLoad (drop_bit (card_shift cfg) store_addr + byte_map_base cfg) # evs))"
  by (auto simp: g1_write_barrier_post_def same_region_def Let_def xor_eq_0_word)

text \<open>
  Two stores in the evaluation configuration: one inside a region, which leaves the state
  alone, and one across regions, which dirties the card and appends it to the queue.
\<close>

theorem g1_post_barrier_noop_witness:
  "same_region g1_cfg0 0x100008 0x1FFFF0
   \<and> g1_write_barrier_post g1_cfg0 0x100008 0x1FFFF0 g1_st0 = g1_st0
   \<and> \<not> same_region g1_cfg0 0x100008 0x200000 \<and> (0x200000 :: 64 word) \<noteq> 0
   \<and> g1_write_barrier_post g1_cfg0 0x100008 0x200000 g1_st0 \<noteq> g1_st0
   \<and> g1_trace (g1_write_barrier_post g1_cfg0 0x100008 0x200000 g1_st0) =
       [CardLoad 0x1800, MembarStoreLoad, CardLoad 0x1800, CardStore 0x1800, QueueIndexLoad,
        QueueIndexStore 8, BufferLoad, LogStore 0x8008 0x1800]"
proof -
  have r: "same_region g1_cfg0 0x100008 0x1FFFF0"
    by (simp add: same_region_def g1_cfg0_def drop_bit_eq_div)
  have c: "\<not> same_region g1_cfg0 0x100008 0x200000"
    by (simp add: same_region_def g1_cfg0_def drop_bit_eq_div)
  have t: "g1_trace (g1_write_barrier_post g1_cfg0 0x100008 0x200000 g1_st0) =
       [CardLoad 0x1800, MembarStoreLoad, CardLoad 0x1800, CardStore 0x1800, QueueIndexLoad,
        QueueIndexStore 8, BufferLoad, LogStore 0x8008 0x1800]"
    by (simp add: g1_write_barrier_post_def g1_cfg0_def g1_st0_def Let_def wordSize_def
        drop_bit_eq_div)
  have n: "g1_write_barrier_post g1_cfg0 0x100008 0x200000 g1_st0 \<noteq> g1_st0"
  proof
    assume "g1_write_barrier_post g1_cfg0 0x100008 0x200000 g1_st0 = g1_st0"
    hence "g1_trace (g1_write_barrier_post g1_cfg0 0x100008 0x200000 g1_st0) = g1_trace g1_st0"
      by simp
    thus False unfolding t by (simp add: g1_st0_def)
  qed
  from g1_post_barrier_noop [of g1_cfg0 "0x100008" "0x1FFFF0" g1_st0]
       g1_post_barrier_noop [of g1_cfg0 "0x100008" "0x200000" g1_st0] r c t n
  show ?thesis by simp
qed

section \<open>Properties of the interpreter stack-overflow check\<close>

text \<open>
  C6. The emitted stack-overflow check compares the number of additional locals in
  \<open>x13\<close> (unsigned) with the constant \<open>(page_size - overhead_size) / stackElementSize\<close>
  and loads the thread's stack-overflow limit exactly when the number exceeds that
  constant; at or below it the code falls to \<open>after_frame_check\<close> having changed only
  the scratch register.  The code leaves through the far jump to the
  StackOverflowError-throwing stub exactly when the number exceeds the constant and the
  stack pointer is not above limit + overhead + locals (in an \<open>ASSERT\<close> build the limit
  must also be non-zero); it then has set \<open>sp\<close> to the sender's stack pointer in
  \<open>x30\<close>, aligned down to 16, and the jump is the last thing it does.  A run that
  reaches \<open>after_frame_check\<close> has kept \<open>sp\<close> and made no jump to the stub.
\<close>

theorem stack_overflow_check_correct:
  "(LoadStackLimit \<in> set (snd (snd (generate_stack_overflow_check cfg stack_limit regs)))
      \<longleftrightarrow> (of_int (page_threshold cfg) :: 64 word) < r_x13 regs)
   \<and> (r_x13 regs \<le> of_int (page_threshold cfg) \<longrightarrow>
        generate_stack_overflow_check cfg stack_limit regs =
          (After_frame_check, regs\<lparr>r_t0 := of_int (page_threshold cfg)\<rparr>, []))
   \<and> (fst (generate_stack_overflow_check cfg stack_limit regs) = Throw_StackOverflowError
        \<longleftrightarrow> (of_int (page_threshold cfg) :: 64 word) < r_x13 regs
            \<and> \<not> (ASSERT cfg \<and> stack_limit = 0)
            \<and> r_sp regs \<le> so_bound cfg stack_limit (r_x13 regs))
   \<and> (fst (generate_stack_overflow_check cfg stack_limit regs) = Throw_StackOverflowError \<longrightarrow>
        r_sp (fst (snd (generate_stack_overflow_check cfg stack_limit regs))) = r_x30 regs AND (- 16)
        \<and> snd (snd (generate_stack_overflow_check cfg stack_limit regs)) =
            [LoadStackLimit, FarJump_throw_StackOverflowError])
   \<and> (fst (generate_stack_overflow_check cfg stack_limit regs) = After_frame_check \<longrightarrow>
        r_sp (fst (snd (generate_stack_overflow_check cfg stack_limit regs))) = r_sp regs
        \<and> FarJump_throw_StackOverflowError \<notin>
            set (snd (snd (generate_stack_overflow_check cfg stack_limit regs))))"
  by (auto simp: generate_stack_overflow_check_def so_bound_def Let_def not_le not_less)

lemma so_cfg0_consts:
  "page_threshold so_cfg0 = 500" "overhead_size so_cfg0 = 96"
  by (simp_all add: page_threshold_def overhead_size_def entry_size_def so_cfg0_def c_div_def
      wordSize_def)

text \<open>
  With 4K pages the threshold is 500 locals.  A frame of 10 locals is not probed; a frame
  of 600 locals with the stack pointer 4K above the limit is thrown out, with \<open>sp\<close>
  reset to the aligned sender's stack pointer.
\<close>

theorem stack_overflow_check_correct_witness:
  "r_x13 (so_regs0 10 0x70000010) \<le> of_int (page_threshold so_cfg0)
   \<and> generate_stack_overflow_check so_cfg0 0x70000000 (so_regs0 10 0x70000010) =
       (After_frame_check, (so_regs0 10 0x70000010)\<lparr>r_t0 := 500\<rparr>, [])
   \<and> (of_int (page_threshold so_cfg0) :: 64 word) < r_x13 (so_regs0 600 0x70001000)
   \<and> r_sp (so_regs0 600 0x70001000) \<le> so_bound so_cfg0 0x70000000 600
   \<and> fst (generate_stack_overflow_check so_cfg0 0x70000000 (so_regs0 600 0x70001000)) =
       Throw_StackOverflowError
   \<and> r_sp (fst (snd (generate_stack_overflow_check so_cfg0 0x70000000
        (so_regs0 600 0x70001000)))) = 0x7000FFF0
   \<and> snd (snd (generate_stack_overflow_check so_cfg0 0x70000000 (so_regs0 600 0x70001000))) =
       [LoadStackLimit, FarJump_throw_StackOverflowError]"
proof -
  have a: "r_x13 (so_regs0 10 0x70000010) \<le> of_int (page_threshold so_cfg0)"
    by (simp add: so_cfg0_consts so_regs0_def)
  have b: "(of_int (page_threshold so_cfg0) :: 64 word) < r_x13 (so_regs0 600 0x70001000)"
    by (simp add: so_cfg0_consts so_regs0_def)
  have c: "r_sp (so_regs0 600 0x70001000) \<le> so_bound so_cfg0 0x70000000 600"
  proof -
    have "logStackElementSize so_cfg0 = 3"
      by (simp add: so_cfg0_def)
    thus ?thesis
      by (simp add: so_bound_def so_cfg0_consts so_regs0_def push_bit_eq_mult)
  qed
  have d: "\<not> (ASSERT so_cfg0 \<and> (0x70000000 :: 64 word) = 0)"
    by simp
  have e: "r_x30 (so_regs0 600 0x70001000) AND (- 16) = 0x7000FFF0"
    by (simp add: so_regs0_def)
  have f: "r_x13 (so_regs0 600 0x70001000) = 600"
    by (simp add: so_regs0_def)
  from stack_overflow_check_correct [of so_cfg0 "0x70000000" "so_regs0 10 0x70000010"]
       stack_overflow_check_correct [of so_cfg0 "0x70000000" "so_regs0 600 0x70001000"]
       a b c d e f
  show ?thesis by (simp add: so_cfg0_consts)
qed

section \<open>Properties of \<open>object_move\<close>\<close>

lemma load_store_same8:
  "load_le (store_le m a 8 v) a 8 = v"
proof (rule bit_word_eqI)
  fix n
  assume n: "n < LENGTH(64)"
  hence n64: "n < 64" by simp
  have d: "n div 8 < 8" using n64 by simp
  have u: "unat (of_nat (n div 8) :: 64 word) = n div 8"
    using d by (simp add: unat_of_nat64)
  have "store_le m a 8 v (a + of_nat (n div 8)) = ucast (drop_bit (8 * (n div 8)) v)"
    using d by (subst store_le_apply) (simp_all add: u del: of_nat_div)
  moreover have "8 * (n div 8) + n mod 8 = n" by simp
  moreover have "n mod 8 < 8" by simp
  ultimately show "bit (load_le (store_le m a 8 v) a 8) n = bit v n"
    using n64 by (simp add: bit_load_le bit_ucast_iff bit_drop_bit_eq)
qed

lemma load_store_disjoint8:
  assumes "slots_disjoint a b"
  shows "load_le (store_le m b 8 w) a 8 = load_le m a 8"
proof (rule bit_word_eqI)
  fix n
  assume n: "n < LENGTH(64)"
  hence n64: "n < 64" by simp
  have d: "n div 8 < 8" using n64 by simp
  have ab: "8 \<le> unat (a - b)" "8 \<le> unat (b - a)"
    using assms by (simp_all add: slots_disjoint_def)
  have pos: "0 < unat (a - b)" using ab(1) by simp
  have "unat (0 - (a - b)) = 2 ^ 64 - unat (a - b)"
    using pos by (subst unat_sub64) simp
  hence hi: "unat (a - b) + 8 \<le> 2 ^ 64" using ab(2) by simp
  have e: "(a + of_nat (n div 8)) - b = (a - b) + of_nat (n div 8)" by simp
  have "unat ((a - b) + (of_nat (n div 8) :: 64 word)) = unat (a - b) + n div 8"
  proof -
    have "unat (of_nat (n div 8) :: 64 word) = n div 8"
      using d by (simp add: unat_of_nat64)
    moreover have "unat (a - b) + n div 8 < 2 ^ 64" using hi d by simp
    ultimately show ?thesis
      using unat_add_lem [of "a - b" "of_nat (n div 8) :: 64 word"] by (simp del: of_nat_div)
  qed
  hence "\<not> unat ((a + of_nat (n div 8)) - b) < 8"
    unfolding e using ab(1) by simp
  hence "store_le m b 8 w (a + of_nat (n div 8)) = m (a + of_nat (n div 8))"
    by (subst store_le_apply) simp_all
  thus "bit (load_le (store_le m b 8 w) a 8) n = bit (load_le m a 8) n"
    by (simp add: bit_load_le)
qed

lemma get_set_reg:
  "get_reg env (set_reg env r v st) r' =
     (if r' = reg_zr env then 0 else if r' = r then v else get_reg env st r')"
  by (simp add: get_reg_def set_reg_def)

lemma set_reg_fields:
  "stack (set_reg env r v st) = stack st" "emitted (set_reg env r v st) = emitted st"
  by (simp_all add: set_reg_def)

lemma get_reg_upd:
  "get_reg env (st\<lparr>emitted := e\<rparr>) r = get_reg env st r"
  "get_reg env (st\<lparr>stack := m\<rparr>) r = get_reg env st r"
  "get_reg env (st\<lparr>stack := m, emitted := e\<rparr>) r = get_reg env st r"
  by (simp_all add: get_reg_def)

lemma get_reg_zr:
  "get_reg env st (reg_zr env) = 0"
  by (simp add: get_reg_def)

lemma from_stack_effect:
  assumes "rHandle \<noteq> reg_zr env" "rHandle \<noteq> reg_t0 env" "reg_t0 env \<noteq> reg_zr env"
    "reg_t0 env \<noteq> reg_fp env"
  shows "\<exists>st' slot ro.
     object_move_from_stack env framesize_in_slots n rHandle is_receiver receiver_offset st =
       (st', slot, ro)
     \<and> get_reg env st' rHandle =
         (if load_le (stack st) (address env st (reg_fp env) (reg2offset_in env n)) 8 = 0 then 0
          else address env st (reg_fp env) (reg2offset_in env n))
     \<and> (\<forall>r. r \<noteq> rHandle \<and> r \<noteq> reg_t0 env \<longrightarrow> get_reg env st' r = get_reg env st r)
     \<and> stack st' = stack st
     \<and> emitted st' = emitted st @ [Load8 (address env st (reg_fp env) (reg2offset_in env n))]"
  using assms
  by (simp add: object_move_from_stack_def ld_def la_def mv_def address_def Let_def
      get_set_reg set_reg_fields get_reg_upd get_reg_zr)

lemma from_reg_effect:
  assumes "rHandle \<noteq> reg_zr env" "rHandle \<noteq> reg_sp env"
  shows "\<exists>st' slot ro.
     object_move_from_reg env oop_handle_offset rOop rHandle is_receiver receiver_offset st =
       (st', slot, ro)
     \<and> get_reg env st' rHandle =
         (if get_reg env st rOop = 0 then 0
          else address env st (reg_sp env)
                 ((oop_slot_of env rOop * slots_per_word env + oop_handle_offset)
                    * stack_slot_size env))
     \<and> (\<forall>r. r \<noteq> rHandle \<longrightarrow> get_reg env st' r = get_reg env st r)
     \<and> stack st' =
         store_le (stack st)
           (address env st (reg_sp env)
              ((oop_slot_of env rOop * slots_per_word env + oop_handle_offset)
                 * stack_slot_size env)) 8 (get_reg env st rOop)
     \<and> emitted st' =
         emitted st @ [Store8 (address env st (reg_sp env)
              ((oop_slot_of env rOop * slots_per_word env + oop_handle_offset)
                 * stack_slot_size env)) (get_reg env st rOop)]"
  using assms
  by (simp add: object_move_from_reg_def sd_def la_def mv_def address_def Let_def
      get_set_reg set_reg_fields get_reg_upd get_reg_zr)

lemma move_wf_regs:
  assumes "move_wf env src_pair dst_pair"
  shows "reg_t0 env \<noteq> reg_zr env" "reg_t1 env \<noteq> reg_zr env" "reg_t1 env \<noteq> reg_t0 env"
    "reg_t0 env \<noteq> reg_fp env" "reg_t1 env \<noteq> reg_sp env" "reg_sp env \<noteq> reg_t0 env"
    "reg_sp env \<noteq> reg_t1 env"
  using assms by (auto simp: move_wf_def)

lemma move_wf_dst:
  assumes "move_wf env src_pair dst_pair" "first dst_pair = GPR rd"
  shows "rd \<noteq> reg_zr env" "rd \<noteq> reg_t0 env" "rd \<noteq> reg_sp env"
  using assms by (auto simp: move_wf_def is_arg_location_def)

lemma move_wf_src:
  assumes "move_wf env src_pair dst_pair" "first src_pair = GPR r"
  shows "r \<noteq> reg_zr env" "r \<noteq> reg_t0 env" "r \<noteq> reg_t1 env"
  using assms by (auto simp: move_wf_def is_arg_location_def)

text \<open>
  C4. For an oop argument in an argument register or in an incoming stack slot, moved to
  an argument register or to an outgoing stack slot that does not overlap the handle slot,
  the emitted code passes 0 when the oop is null and otherwise the address of a stack slot
  that holds the oop when the code is done.  For a register source that slot is the
  handle-area slot \<open>sp + (oop_slot * slots_per_word + oop_handle_offset) * stack_slot_size\<close>
  and the code stores the oop there (also when it is null).  For a source that is already
  on the stack the code stores the oop nowhere: the slot is the incoming argument slot
  \<open>fp + reg2offset_in(src)\<close> itself, which the code only loads.  The only other memory
  access is the store of the passed value into the outgoing slot of a stack destination.
\<close>

theorem object_move_passes_handle:
  assumes wf: "move_wf env src_pair dst_pair"
    and dj: "is_stack (first dst_pair) \<longrightarrow>
             slots_disjoint (handle_slot env oop_handle_offset src_pair st)
               (out_slot env dst_pair st)"
  shows "\<exists>res. object_move env oop_handle_offset framesize_in_slots src_pair dst_pair
                 is_receiver receiver_offset st = Some res
     \<and> passed_value env dst_pair (final res) =
         (if source_oop env src_pair st = 0 then 0
          else handle_slot env oop_handle_offset src_pair st)
     \<and> load_le (stack (final res)) (handle_slot env oop_handle_offset src_pair st) 8 =
         source_oop env src_pair st
     \<and> emitted (final res) =
         emitted st
         @ (if is_stack (first src_pair)
            then [Load8 (handle_slot env oop_handle_offset src_pair st)]
            else [Store8 (handle_slot env oop_handle_offset src_pair st)
                    (source_oop env src_pair st)])
         @ (if is_stack (first dst_pair)
            then [Store8 (out_slot env dst_pair st) (passed_value env dst_pair (final res))]
            else [])"
proof -
  note regs = move_wf_regs [OF wf]
  consider
      (ss) n k where "first src_pair = StackSlot n" "first dst_pair = StackSlot k"
    | (sr) n rd where "first src_pair = StackSlot n" "first dst_pair = GPR rd"
    | (rs) r k where "first src_pair = GPR r" "first dst_pair = StackSlot k"
    | (rr) r rd where "first src_pair = GPR r" "first dst_pair = GPR rd"
    using wf by (auto simp: move_wf_def is_arg_location_def split: VMReg.splits)
  then show ?thesis
  proof cases
    case ss
    from from_stack_effect [of "reg_t1 env" env framesize_in_slots n is_receiver receiver_offset st]
      regs
    obtain st' slot ro where
      "object_move_from_stack env framesize_in_slots n (reg_t1 env) is_receiver receiver_offset st =
         (st', slot, ro)"
      "get_reg env st' (reg_t1 env) =
         (if load_le (stack st) (address env st (reg_fp env) (reg2offset_in env n)) 8 = 0 then 0
          else address env st (reg_fp env) (reg2offset_in env n))"
      "\<forall>r. r \<noteq> reg_t1 env \<and> r \<noteq> reg_t0 env \<longrightarrow> get_reg env st' r = get_reg env st r"
      "stack st' = stack st"
      "emitted st' = emitted st @ [Load8 (address env st (reg_fp env) (reg2offset_in env n))]"
      by blast
    moreover from this(3) regs have "get_reg env st' (reg_sp env) = get_reg env st (reg_sp env)"
      by simp
    ultimately show ?thesis
      using ss dj
      by (simp add: object_move_def passed_value_def source_oop_def handle_slot_def out_slot_def
          sd_def address_def Let_def get_reg_upd load_store_same8 load_store_disjoint8)
  next
    case sr
    note d = move_wf_dst [OF wf sr(2)]
    from from_stack_effect [of rd env framesize_in_slots n is_receiver receiver_offset st]
      regs d
    obtain st' slot ro where
      "object_move_from_stack env framesize_in_slots n rd is_receiver receiver_offset st =
         (st', slot, ro)"
      "get_reg env st' rd =
         (if load_le (stack st) (address env st (reg_fp env) (reg2offset_in env n)) 8 = 0 then 0
          else address env st (reg_fp env) (reg2offset_in env n))"
      "stack st' = stack st"
      "emitted st' = emitted st @ [Load8 (address env st (reg_fp env) (reg2offset_in env n))]"
      by blast
    then show ?thesis
      using sr
      by (simp add: object_move_def passed_value_def source_oop_def handle_slot_def out_slot_def
          address_def Let_def)
  next
    case rs
    note s = move_wf_src [OF wf rs(1)]
    from from_reg_effect [of "reg_t1 env" env oop_handle_offset r is_receiver receiver_offset st]
      regs
    obtain st' slot ro where
      "object_move_from_reg env oop_handle_offset r (reg_t1 env) is_receiver receiver_offset st =
         (st', slot, ro)"
      "get_reg env st' (reg_t1 env) =
         (if get_reg env st r = 0 then 0
          else address env st (reg_sp env)
                 ((oop_slot_of env r * slots_per_word env + oop_handle_offset)
                    * stack_slot_size env))"
      "\<forall>r. r \<noteq> reg_t1 env \<longrightarrow> get_reg env st' r = get_reg env st r"
      "stack st' =
         store_le (stack st)
           (address env st (reg_sp env)
              ((oop_slot_of env r * slots_per_word env + oop_handle_offset)
                 * stack_slot_size env)) 8 (get_reg env st r)"
      "emitted st' =
         emitted st @ [Store8 (address env st (reg_sp env)
              ((oop_slot_of env r * slots_per_word env + oop_handle_offset)
                 * stack_slot_size env)) (get_reg env st r)]"
      by blast
    moreover from this(3) regs have "get_reg env st' (reg_sp env) = get_reg env st (reg_sp env)"
      by simp
    ultimately show ?thesis
      using rs dj
      by (simp add: object_move_def passed_value_def source_oop_def handle_slot_def out_slot_def
          sd_def address_def Let_def get_reg_upd load_store_same8 load_store_disjoint8)
  next
    case rr
    note d = move_wf_dst [OF wf rr(2)]
    from from_reg_effect [of rd env oop_handle_offset r is_receiver receiver_offset st] d
    obtain st' slot ro where
      "object_move_from_reg env oop_handle_offset r rd is_receiver receiver_offset st =
         (st', slot, ro)"
      "get_reg env st' rd =
         (if get_reg env st r = 0 then 0
          else address env st (reg_sp env)
                 ((oop_slot_of env r * slots_per_word env + oop_handle_offset)
                    * stack_slot_size env))"
      "stack st' =
         store_le (stack st)
           (address env st (reg_sp env)
              ((oop_slot_of env r * slots_per_word env + oop_handle_offset)
                 * stack_slot_size env)) 8 (get_reg env st r)"
      "emitted st' =
         emitted st @ [Store8 (address env st (reg_sp env)
              ((oop_slot_of env r * slots_per_word env + oop_handle_offset)
                 * stack_slot_size env)) (get_reg env st r)]"
      by blast
    then show ?thesis
      using rr
      by (simp add: object_move_def passed_value_def source_oop_def handle_slot_def out_slot_def
          address_def Let_def load_store_same8)
  qed
qed

lemma move_env0_regs:
  "reg_zr move_env0 = 0" "reg_sp move_env0 = 2" "reg_fp move_env0 = 8" "reg_t0 move_env0 = 5"
  "reg_t1 move_env0 = 6" "stack_slot_size move_env0 = 4" "slots_per_word move_env0 = 2"
  by (simp_all add: move_env0_def)

lemma oop_slot_of_x12:
  "oop_slot_of move_env0 12 = 1"
  by (simp add: oop_slot_of_def move_env0_def j_int_table_def)

text \<open>
  An oop in \<open>x12\<close> (\<open>j_rarg1\<close>) passed in the first outgoing stack slot: the oop is
  stored at \<open>sp + 72\<close> and that address is stored at \<open>sp + 0\<close>.
\<close>

theorem object_move_passes_handle_witness:
  "move_wf move_env0 (set2 (GPR 12)) (set2 (StackSlot 0))
   \<and> slots_disjoint (handle_slot move_env0 16 (set2 (GPR 12)) move_st0)
        (out_slot move_env0 (set2 (StackSlot 0)) move_st0)
   \<and> (\<exists>res. object_move move_env0 16 40 (set2 (GPR 12)) (set2 (StackSlot 0)) False 0 move_st0
              = Some res
        \<and> passed_value move_env0 (set2 (StackSlot 0)) (final res) = 0x7048
        \<and> load_le (stack (final res)) 0x7048 8 = 0xABCD00
        \<and> emitted (final res) = [Store8 0x7048 0xABCD00, Store8 0x7000 0x7048])"
proof -
  have wf: "move_wf move_env0 (set2 (GPR 12)) (set2 (StackSlot 0))"
    by (simp add: move_wf_def is_arg_location_def set2_def move_env0_regs)
  have hs: "handle_slot move_env0 16 (set2 (GPR 12)) move_st0 = 0x7048"
    by (simp add: handle_slot_def set2_def address_def get_reg_def move_env0_regs
        oop_slot_of_x12 move_st0_def)
  have out: "out_slot move_env0 (set2 (StackSlot 0)) move_st0 = 0x7000"
    by (simp add: out_slot_def set2_def address_def get_reg_def move_env0_regs
        reg2offset_out_def out_preserve_stack_slots_def move_st0_def)
  have oop: "source_oop move_env0 (set2 (GPR 12)) move_st0 = 0xABCD00"
    by (simp add: source_oop_def set2_def get_reg_def move_env0_regs move_st0_def)
  have dj: "slots_disjoint (handle_slot move_env0 16 (set2 (GPR 12)) move_st0)
              (out_slot move_env0 (set2 (StackSlot 0)) move_st0)"
    unfolding hs out by (simp add: slots_disjoint_def)
  have e: "emitted move_st0 = []"
    by (simp add: move_st0_def)
  from object_move_passes_handle [OF wf, of 16 move_st0 40 False 0] dj
  show ?thesis
    unfolding hs out oop e using wf by (auto simp: set2_def)
qed

text \<open>
  An oop in the incoming stack slot 2 passed in \<open>x12\<close>: the emitted code loads the slot
  at \<open>fp + 24\<close> and passes that address; it stores nothing.
\<close>

theorem object_move_stack_source_counterexample:
  "source_oop move_env0 (set2 (StackSlot 2)) move_st0 = 0x42
   \<and> map_option (emitted \<circ> final)
        (object_move move_env0 16 40 (set2 (StackSlot 2)) (set2 (GPR 12)) False 0 move_st0) =
       Some [Load8 0x7118]
   \<and> map_option (passed_value move_env0 (set2 (GPR 12)) \<circ> final)
        (object_move move_env0 16 40 (set2 (StackSlot 2)) (set2 (GPR 12)) False 0 move_st0) =
       Some 0x7118"
  by code_simp

section \<open>Properties of the interpreter method entry\<close>

subsection \<open>Labels and successors\<close>

lemma labels_bound_append:
  "labels_bound (A @ B) = labels_bound A @ labels_bound B"
  by (induction A) (simp_all split: op.splits)

lemma labels_used_append:
  "labels_used (A @ B) = labels_used A @ labels_used B"
  by (induction A) (simp_all split: op.splits)

lemma bound_at_None:
  "bound_at A l = None \<longleftrightarrow> l \<notin> set (labels_bound A)"
  by (induction A) (auto split: op.splits)

lemma bound_at_Some:
  "bound_at A l = Some t \<Longrightarrow> t < length A"
proof (induction A arbitrary: t)
  case Nil
  then show ?case by simp
next
  case (Cons it A)
  then show ?case by (auto split: if_splits)
qed

lemma bound_at_append:
  "bound_at (A @ B) l =
     (case bound_at A l of
        Some t \<Rightarrow> Some t
      | None \<Rightarrow> map_option (\<lambda>t. length A + t) (bound_at B l))"
proof (induction A)
  case Nil
  show ?case by (cases "bound_at B l") simp_all
next
  case (Cons it A)
  then show ?case
    by (cases "bound_at A l"; cases "bound_at B l") simp_all
qed

lemma bound_in_segment:
  assumes d: "distinct (labels_bound (A @ M @ R))"
    and l: "l \<in> set (labels_bound M)"
  shows "\<exists>t. bound_at (A @ M @ R) l = Some t \<and> length A \<le> t \<and> t < length A + length M"
proof -
  have "l \<notin> set (labels_bound A)"
    using d l by (auto simp: labels_bound_append)
  hence a: "bound_at A l = None" by (simp add: bound_at_None)
  have "bound_at M l \<noteq> None" using l by (simp add: bound_at_None)
  then obtain t where t: "bound_at M l = Some t" by auto
  hence "t < length M" by (rule bound_at_Some)
  thus ?thesis using a t by (simp add: bound_at_append)
qed

lemma bound_at_exit:
  assumes d: "distinct (labels_bound (A @ M @ (s, Bind l) # R))"
  shows "bound_at (A @ M @ (s, Bind l) # R) l = Some (length A + length M)"
proof -
  have "l \<notin> set (labels_bound A)" "l \<notin> set (labels_bound M)"
    using d by (auto simp: labels_bound_append)
  hence "bound_at A l = None" "bound_at M l = None" by (simp_all add: bound_at_None)
  thus ?thesis by (simp add: bound_at_append)
qed

lemma used_in_segment:
  assumes "it \<in> set M" "snd it = Branch s l \<or> snd it = Jump l"
  shows "l \<in> set (labels_used M)"
  using assms by (induction M) (auto split: op.splits)

text \<open>
  A segment whose branches go to labels bound inside it, or to the label bound right
  behind it: its successors are in the segment or are the position right behind it.
\<close>

lemma segment_succs:
  assumes d: "distinct (labels_bound (A @ M @ R))"
    and u: "\<forall>l\<in>set (labels_used M). l \<in> set (labels_bound M) \<or> (\<exists>s R'. R = (s, Bind l) # R')"
    and p: "length A \<le> p" "p < length A + length M"
    and q: "q \<in> set (succs (A @ M @ R) p)"
  shows "length A \<le> q \<and> q \<le> length A + length M"
proof -
  have pm: "p - length A < length M" "\<not> p < length A" using p by simp_all
  have it: "(A @ M @ R) ! p = M ! (p - length A)" "M ! (p - length A) \<in> set M"
    using pm by (simp_all add: nth_append)
  have tgt: "length A \<le> t \<and> t \<le> length A + length M"
    if "snd (M ! (p - length A)) = Branch s l \<or> snd (M ! (p - length A)) = Jump l"
      and "bound_at (A @ M @ R) l = Some t" for s l t
  proof -
    have "l \<in> set (labels_used M)" using it(2) that(1) by (rule used_in_segment)
    with u consider "l \<in> set (labels_bound M)" | s' R' where "R = (s', Bind l) # R'"
      by blast
    then show ?thesis
    proof cases
      case 1
      from bound_in_segment [OF d 1] that(2) show ?thesis by auto
    next
      case 2
      from bound_at_exit [of A M s' l R'] d that(2) show ?thesis by (simp add: 2)
    qed
  qed
  show ?thesis
  proof (cases "snd (M ! (p - length A))")
    case (Branch s l)
    then show ?thesis using q p tgt [of s l] by (auto simp: succs_def it split: option.splits)
  next
    case (Jump l)
    then show ?thesis using q p tgt [of undefined l] by (auto simp: succs_def it split: option.splits)
  qed (use q p in \<open>auto simp: succs_def it\<close>)
qed

text \<open>
  A segment whose branches all go to labels bound inside it and whose last item does not
  fall through: its successors are in the segment.
\<close>

lemma segment_closed:
  assumes d: "distinct (labels_bound (A @ M @ R))"
    and u: "set (labels_used M) \<subseteq> set (labels_bound M)"
    and e: "M \<noteq> []" "\<not> falls_through (snd (last M))"
    and p: "length A \<le> p" "p < length A + length M"
    and q: "q \<in> set (succs (A @ M @ R) p)"
  shows "length A \<le> q \<and> q < length A + length M"
proof -
  have pm: "p - length A < length M" "\<not> p < length A" using p by simp_all
  have it: "(A @ M @ R) ! p = M ! (p - length A)" "M ! (p - length A) \<in> set M"
    using pm by (simp_all add: nth_append)
  have lst: "M ! (p - length A) = last M" if "Suc p = length A + length M"
  proof -
    have "p - length A = length M - 1" using that p by simp
    thus ?thesis using e(1) by (simp add: last_conv_nth)
  qed
  have tgt: "length A \<le> t \<and> t < length A + length M"
    if "snd (M ! (p - length A)) = Branch s l \<or> snd (M ! (p - length A)) = Jump l"
      and "bound_at (A @ M @ R) l = Some t" for s l t
  proof -
    have "l \<in> set (labels_used M)" using it(2) that(1) by (rule used_in_segment)
    hence "l \<in> set (labels_bound M)" using u by auto
    from bound_in_segment [OF d this] that(2) show ?thesis by auto
  qed
  have nxt: "Suc p < length A + length M" if "falls_through (snd (M ! (p - length A)))"
  proof (rule ccontr)
    assume "\<not> Suc p < length A + length M"
    hence "Suc p = length A + length M" using p by simp
    from lst [OF this] that e(2) show False by simp
  qed
  show ?thesis
  proof (cases "snd (M ! (p - length A))")
    case (Branch s l)
    then show ?thesis using q p tgt [of s l] nxt by (auto simp: succs_def it split: option.splits)
  next
    case (Jump l)
    then show ?thesis using q p tgt [of undefined l] by (auto simp: succs_def it split: option.splits)
  qed (use q p nxt in \<open>auto simp: succs_def it\<close>)
qed

subsection \<open>Paths\<close>

lemma is_path_step:
  "is_path prog path \<Longrightarrow> Suc i < length path \<Longrightarrow>
   path ! Suc i \<in> set (succs prog (path ! i))"
proof (induction prog path arbitrary: i rule: is_path.induct)
  case (3 prog p q pcs)
  then show ?case by (cases i) simp_all
qed simp_all

lemma is_path_bound:
  "is_path prog path \<Longrightarrow> k < length path \<Longrightarrow> path ! k < length prog"
proof (induction prog path arbitrary: k rule: is_path.induct)
  case (3 prog p q pcs)
  then show ?case by (cases k) simp_all
qed simp_all

text \<open>
  A path that starts inside a range of positions whose successors are in the range or are
  the position right behind it, and that is outside the range later, has been at the
  position right behind it in between.
\<close>

lemma path_through_exit:
  assumes path: "is_path prog path"
    and seg: "\<And>p q. lb \<le> p \<Longrightarrow> p < ub \<Longrightarrow> q \<in> set (succs prog p) \<Longrightarrow> lb \<le> q \<and> q \<le> ub"
    and start: "lb \<le> path ! i" "path ! i < ub"
    and k: "i \<le> k" "k < length path"
  shows "(\<forall>j. i \<le> j \<and> j \<le> k \<longrightarrow> lb \<le> path ! j \<and> path ! j < ub)
         \<or> (\<exists>j. i < j \<and> j \<le> k \<and> path ! j = ub)"
  using k
proof (induction k)
  case 0
  then show ?case using start by simp
next
  case (Suc k)
  show ?case
  proof (cases "i = Suc k")
    case True
    then show ?thesis using start by (auto simp: le_Suc_eq)
  next
    case False
    hence ik: "i \<le> k" "k < length path" using Suc.prems by simp_all
    from Suc.IH [OF ik]
    consider (inside) "\<forall>j. i \<le> j \<and> j \<le> k \<longrightarrow> lb \<le> path ! j \<and> path ! j < ub"
      | (outside) "\<exists>j. i < j \<and> j \<le> k \<and> path ! j = ub"
      by blast
    then show ?thesis
    proof cases
      case inside
      hence pk: "lb \<le> path ! k" "path ! k < ub" using ik by simp_all
      have "path ! Suc k \<in> set (succs prog (path ! k))"
        using path Suc.prems(2) by (rule is_path_step)
      from seg [OF pk this] have "lb \<le> path ! Suc k" "path ! Suc k \<le> ub" by simp_all
      then consider "path ! Suc k < ub" | "path ! Suc k = ub" by linarith
      then show ?thesis
      proof cases
        case 1
        then show ?thesis using inside \<open>lb \<le> path ! Suc k\<close> by (auto simp: le_Suc_eq)
      next
        case 2
        have "i < Suc k" using False Suc.prems(1) by simp
        with 2 have "\<exists>j. i < j \<and> j \<le> Suc k \<and> path ! j = ub" by blast
        then show ?thesis ..
      qed
    next
      case outside
      then show ?thesis by (auto simp: le_Suc_eq)
    qed
  qed
qed

text \<open>A path that is inside a range closed under successors stays inside.\<close>

lemma path_stays:
  assumes path: "is_path prog path"
    and seg: "\<And>p q. lb \<le> p \<Longrightarrow> p < ub \<Longrightarrow> q \<in> set (succs prog p) \<Longrightarrow> lb \<le> q \<and> q < ub"
    and start: "lb \<le> path ! i" "path ! i < ub"
    and k: "i \<le> k" "k < length path"
  shows "lb \<le> path ! k \<and> path ! k < ub"
  using k
proof (induction k)
  case 0
  then show ?case using start by simp
next
  case (Suc k)
  show ?case
  proof (cases "i = Suc k")
    case True
    then show ?thesis using start by simp
  next
    case False
    hence ik: "i \<le> k" "k < length path" using Suc.prems by simp_all
    from Suc.IH [OF ik] have pk: "lb \<le> path ! k" "path ! k < ub" by simp_all
    have "path ! Suc k \<in> set (succs prog (path ! k))"
      using path Suc.prems(2) by (rule is_path_step)
    from seg [OF pk this] show ?thesis .
  qed
qed

text \<open>Where the items with a property are, when only one segment has any.\<close>

lemma only_in_segment:
  assumes "list_all (\<lambda>x. \<not> P x) A" "list_all (\<lambda>x. \<not> P x) R"
    and "j < length (A @ M @ R)" "P ((A @ M @ R) ! j)"
  shows "length A \<le> j \<and> j < length A + length M"
  using assms by (auto simp: nth_append list_all_length not_less split: if_splits)

lemma all_in_segment:
  assumes "list_all Q M" "length A \<le> j" "j < length A + length M"
  shows "Q ((A @ M @ R) ! j)"
  using assms by (auto simp: nth_append list_all_length)

subsection \<open>The labels and the parts of the entry code\<close>

lemma entry_labels_bound:
  "labels_bound entry_get_parameter_size = []"
  "labels_bound (stack_overflow_check_body a) = (if a then [limit_okay] else [])"
  "labels_bound entry_allocate_locals = [locals_loop, locals_exit]"
  "labels_bound entry_fixed_frame = []"
  "labels_bound (entry_check_not_native a) = (if a then [assert_L 2, assert_L 3] else [])"
  "labels_bound entry_set_do_not_unlock = []"
  "labels_bound entry_profile_parameters = [no_mdp]"
  "labels_bound (entry_increment_invocation_count ic t p) =
     (if ic then (if t then [no_mdo, incr_done] else [incr_done])
                 @ (if p then [profile_method_continue] else [])
      else [])"
  "labels_bound entry_continue_after_compile = [continue_after_compile]"
  "labels_bound (lock_method_code a) =
     (if a then [assert_L 0, assert_L 1, lock_done] else [lock_done])"
  "labels_bound (entry_check_not_synchronized a) = (if a then [assert_L 4] else [])"
  "labels_bound (entry_start_execution a) = (if a then [assert_L 5] else [])"
  "labels_bound (entry_invocation_counter_overflow ic p) =
     (if ic then (if p then [profile_method] else []) @ [invocation_counter_overflow]
      else [])"
  by (simp_all add: entry_get_parameter_size_def stack_overflow_check_body_def
      entry_allocate_locals_def entry_fixed_frame_def entry_check_not_native_def
      entry_set_do_not_unlock_def entry_profile_parameters_def
      entry_increment_invocation_count_def generate_counter_incr_code_def
      entry_continue_after_compile_def lock_method_code_def entry_check_not_synchronized_def
      entry_start_execution_def entry_invocation_counter_overflow_def
      entry_profile_method_handler_def generate_counter_overflow_code_def
      labels_bound_append)

lemma entry_labels_used:
  "labels_used entry_get_parameter_size = []"
  "labels_used (stack_overflow_check_body a) =
     (if a then [after_frame_check, limit_okay, after_frame_check]
      else [after_frame_check, after_frame_check])"
  "labels_used entry_allocate_locals = [locals_exit, locals_loop]"
  "labels_used entry_fixed_frame = []"
  "labels_used (entry_check_not_native a) = (if a then [assert_L 2, assert_L 3] else [])"
  "labels_used entry_set_do_not_unlock = []"
  "labels_used entry_profile_parameters = [no_mdp]"
  "labels_used (lock_method_code a) =
     (if a then [assert_L 0, lock_done, assert_L 1] else [lock_done])"
  "labels_used (entry_start_execution a) = (if a then [assert_L 5] else [])"
  by (simp_all add: entry_get_parameter_size_def stack_overflow_check_body_def
      entry_allocate_locals_def entry_fixed_frame_def entry_check_not_native_def
      entry_set_do_not_unlock_def entry_profile_parameters_def lock_method_code_def
      entry_start_execution_def labels_used_append)

lemma entry_labels_distinct:
  "distinct (labels_bound (generate_normal_entry_items ic t p a s))"
  by (auto simp: generate_normal_entry_items_def generate_stack_overflow_check_code_def
      labels_bound_append entry_labels_bound)

lemmas entry_part_defs =
  entry_get_parameter_size_def stack_overflow_check_body_def
  entry_allocate_locals_def entry_fixed_frame_def entry_check_not_native_def
  entry_set_do_not_unlock_def entry_profile_parameters_def
  entry_increment_invocation_count_def generate_counter_incr_code_def
  entry_continue_after_compile_def lock_method_code_def
  entry_start_execution_def entry_invocation_counter_overflow_def
  entry_profile_method_handler_def generate_counter_overflow_code_def

lemma entry_split_lock:
  "generate_normal_entry_items ic t p a True =
     entry_to_lock ic t p a @ lock_method_code a
     @ (entry_start_execution a @ entry_invocation_counter_overflow ic p)"
  by (simp add: generate_normal_entry_items_def generate_stack_overflow_check_code_def
      entry_to_lock_def entry_to_counter_incr_def entry_to_frame_check_def)

lemma entry_split_frame_check:
  "entry_to_lock ic t p a =
     entry_to_frame_check a
     @ (Stack_overflow_check, Bind after_frame_check)
       # (entry_allocate_locals @ entry_fixed_frame @ entry_check_not_native a
          @ entry_set_do_not_unlock @ entry_profile_parameters
          @ entry_increment_invocation_count ic t p @ entry_continue_after_compile)"
  by (simp add: entry_to_lock_def entry_to_counter_incr_def)

lemma no_lock_before:
  "list_all (\<lambda>it. \<not> is_lock it) (entry_to_lock ic t p a)"
  by (simp add: entry_to_lock_def entry_to_counter_incr_def entry_to_frame_check_def
      entry_part_defs is_lock_def)

lemma no_lock_after:
  "list_all (\<lambda>it. \<not> is_lock it)
     (entry_start_execution a @ entry_invocation_counter_overflow ic p)"
  by (simp add: entry_part_defs is_lock_def)

lemma no_check_after:
  "list_all (\<lambda>it. \<not> is_overflow_check it)
     (lock_method_code a @ entry_start_execution a @ entry_invocation_counter_overflow ic p)"
  by (simp add: entry_part_defs is_overflow_check_def)

lemma no_overflow_code_locked:
  "list_all (\<lambda>it. \<not> is_overflow_code it) (lock_method_code a @ entry_start_execution a)"
  by (simp add: entry_part_defs is_overflow_code_def)

lemma counter_incr_part:
  "list_all is_counter_incr (entry_increment_invocation_count True t p)"
  "0 < length (entry_increment_invocation_count True t p)"
  by (simp_all add: entry_part_defs is_counter_incr_def)

lemma lock_method_nonempty:
  "0 < length (lock_method_code a)" "list_all is_lock (lock_method_code a)"
  by (simp_all add: entry_part_defs is_lock_def)

lemma locked_part_end:
  "lock_method_code a @ entry_start_execution a \<noteq> []"
  "\<not> falls_through (snd (last (lock_method_code a @ entry_start_execution a)))"
  by (simp_all add: entry_part_defs)

subsection \<open>Where the lock is, and what comes before it\<close>

lemma lock_position:
  assumes "j < length (generate_normal_entry_items ic t p a True)"
    and "is_lock (generate_normal_entry_items ic t p a True ! j)"
  shows "length (entry_to_lock ic t p a) \<le> j
         \<and> j < length (entry_to_lock ic t p a) + length (lock_method_code a)"
  using only_in_segment [OF no_lock_before no_lock_after, of j ic t p a "lock_method_code a" a ic p]
    assms
  by (simp add: entry_split_lock)

lemma overflow_check_position:
  assumes "i < length (generate_normal_entry_items ic t p a True)"
    and "is_overflow_check (generate_normal_entry_items ic t p a True ! i)"
  shows "i < length (entry_to_lock ic t p a)"
proof -
  have "list_all (\<lambda>it. \<not> is_overflow_check it) []" by simp
  from only_in_segment [OF this no_check_after, of i "entry_to_lock ic t p a" a ic p] assms
  show ?thesis by (simp add: entry_split_lock)
qed

lemma passes_frame_check:
  assumes path: "is_path (generate_normal_entry_items ic t p a True) path"
    and start: "path ! 0 = 0"
    and k: "k < length path"
    and lock: "is_lock (generate_normal_entry_items ic t p a True ! (path ! k))"
  shows "\<exists>i<k. generate_normal_entry_items ic t p a True ! (path ! i) =
           (Stack_overflow_check, Bind after_frame_check)"
proof -
  define rest where "rest =
     (entry_allocate_locals @ entry_fixed_frame @ entry_check_not_native a
        @ entry_set_do_not_unlock @ entry_profile_parameters
        @ entry_increment_invocation_count ic t p @ entry_continue_after_compile)
     @ lock_method_code a @ entry_start_execution a @ entry_invocation_counter_overflow ic p"
  define F where "F = entry_to_frame_check a"
  define prog where "prog = generate_normal_entry_items ic t p a True"
  have eq: "prog = [] @ F @ (Stack_overflow_check, Bind after_frame_check) # rest"
    by (simp add: prog_def F_def rest_def entry_split_lock entry_split_frame_check)
  have d: "distinct (labels_bound ([] @ F @ (Stack_overflow_check, Bind after_frame_check) # rest))"
    using entry_labels_distinct [of ic t p a True] unfolding eq [symmetric] prog_def .
  have u: "\<forall>l\<in>set (labels_used F). l \<in> set (labels_bound F)
             \<or> (\<exists>s R'. (Stack_overflow_check, Bind after_frame_check) # rest = (s, Bind l) # R')"
    by (simp add: F_def entry_to_frame_check_def labels_used_append labels_bound_append
        entry_labels_used entry_labels_bound)
  have seg: "0 \<le> q \<and> q \<le> length F" if "0 \<le> r" "r < length F" "q \<in> set (succs prog r)" for r q
    using segment_succs [OF d u, of r q] that by (simp add: eq)
  have len: "0 < length F"
    by (simp add: F_def entry_to_frame_check_def entry_get_parameter_size_def)
  have pk: "path ! k < length prog"
    using is_path_bound [OF path k] by (simp add: prog_def)
  have "length (entry_to_lock ic t p a) \<le> path ! k"
    using lock_position [OF pk [unfolded prog_def] lock] by simp
  moreover have "length F < length (entry_to_lock ic t p a)"
    by (simp add: entry_split_frame_check F_def)
  ultimately have far: "length F < path ! k" by simp
  have p': "is_path prog path" using path by (simp add: prog_def)
  from path_through_exit [OF p', of 0 "length F" 0 k] seg start len k
  have "(\<forall>j. 0 \<le> j \<and> j \<le> k \<longrightarrow> 0 \<le> path ! j \<and> path ! j < length F)
        \<or> (\<exists>j. 0 < j \<and> j \<le> k \<and> path ! j = length F)"
    by simp
  with far obtain j where j: "j \<le> k" "path ! j = length F" by force
  with far have "j < k" by (cases "j = k") simp_all
  moreover have "prog ! (path ! j) = (Stack_overflow_check, Bind after_frame_check)"
    by (simp add: j eq)
  ultimately show ?thesis unfolding prog_def by blast
qed

lemma passes_counter_incr:
  assumes path: "is_path (generate_normal_entry_items True t p a True) path"
    and start: "path ! 0 = 0"
    and k: "k < length path"
    and lock: "is_lock (generate_normal_entry_items True t p a True ! (path ! k))"
  shows "\<exists>i<k. is_counter_incr (generate_normal_entry_items True t p a True ! (path ! i))"
proof -
  define C where "C = entry_increment_invocation_count True t p"
  define rest where "rest =
     entry_continue_after_compile
     @ lock_method_code a @ entry_start_execution a @ entry_invocation_counter_overflow True p"
  define E where "E = entry_to_counter_incr a"
  define prog where "prog = generate_normal_entry_items True t p a True"
  have eq: "prog = [] @ E @ (C @ rest)"
    by (simp add: prog_def E_def C_def rest_def entry_split_lock entry_to_lock_def)
  have d: "distinct (labels_bound ([] @ E @ (C @ rest)))"
    using entry_labels_distinct [of True t p a True] unfolding eq [symmetric] prog_def .
  have u: "\<forall>l\<in>set (labels_used E). l \<in> set (labels_bound E)
             \<or> (\<exists>s R'. C @ rest = (s, Bind l) # R')"
    by (simp add: E_def entry_to_counter_incr_def entry_to_frame_check_def labels_used_append
        labels_bound_append entry_labels_used entry_labels_bound)
  have seg: "0 \<le> q \<and> q \<le> length E" if "0 \<le> r" "r < length E" "q \<in> set (succs prog r)" for r q
    using segment_succs [OF d u, of r q] that by (simp add: eq)
  have len: "0 < length E"
    by (simp add: E_def entry_to_counter_incr_def)
  have pk: "path ! k < length prog"
    using is_path_bound [OF path k] by (simp add: prog_def)
  have "length (entry_to_lock True t p a) \<le> path ! k"
    using lock_position [OF pk [unfolded prog_def] lock] by simp
  moreover have "length E < length (entry_to_lock True t p a)"
    by (simp add: entry_to_lock_def E_def entry_continue_after_compile_def)
  ultimately have far: "length E < path ! k" by simp
  have p': "is_path prog path" using path by (simp add: prog_def)
  from path_through_exit [OF p', of 0 "length E" 0 k] seg start len k
  have "(\<forall>j. 0 \<le> j \<and> j \<le> k \<longrightarrow> 0 \<le> path ! j \<and> path ! j < length E)
        \<or> (\<exists>j. 0 < j \<and> j \<le> k \<and> path ! j = length E)"
    by simp
  with far obtain j where j: "j \<le> k" "path ! j = length E" by force
  with far have "j < k" by (cases "j = k") simp_all
  moreover have "is_counter_incr (prog ! (path ! j))"
    using all_in_segment [of is_counter_incr C E "length E" rest] counter_incr_part [of t p]
    by (simp add: j eq C_def)
  ultimately show ?thesis unfolding prog_def by blast
qed

lemma no_overflow_code_after_lock:
  assumes path: "is_path (generate_normal_entry_items ic t p a True) path"
    and k: "k \<le> i" "i < length path"
    and lock: "is_lock (generate_normal_entry_items ic t p a True ! (path ! k))"
  shows "\<not> is_overflow_code (generate_normal_entry_items ic t p a True ! (path ! i))"
proof -
  define B where "B = entry_to_lock ic t p a"
  define M where "M = lock_method_code a @ entry_start_execution a"
  define H where "H = entry_invocation_counter_overflow ic p"
  define prog where "prog = generate_normal_entry_items ic t p a True"
  have eq: "prog = B @ M @ H"
    by (simp add: prog_def B_def M_def H_def entry_split_lock)
  have d: "distinct (labels_bound (B @ M @ H))"
    using entry_labels_distinct [of ic t p a True] unfolding eq [symmetric] prog_def .
  have u: "set (labels_used M) \<subseteq> set (labels_bound M)"
    by (simp add: M_def labels_used_append labels_bound_append entry_labels_used
        entry_labels_bound)
  have e: "M \<noteq> []" "\<not> falls_through (snd (last M))"
    using locked_part_end [of a] by (simp_all add: M_def)
  have seg: "length B \<le> q \<and> q < length B + length M"
    if "length B \<le> r" "r < length B + length M" "q \<in> set (succs prog r)" for r q
    using segment_closed [OF d u e that(1,2)] that(3) by (simp add: eq)
  have kl: "k < length path" using k by simp
  have pk: "path ! k < length prog"
    using is_path_bound [OF path kl] by (simp add: prog_def)
  from lock_position [OF pk [unfolded prog_def] lock]
  have st: "length B \<le> path ! k" "path ! k < length B + length M"
    by (simp_all add: B_def M_def)
  have p': "is_path prog path" using path by (simp add: prog_def)
  from path_stays [OF p', of "length B" "length B + length M" k i] seg st k
  have "length B \<le> path ! i \<and> path ! i < length B + length M" by blast
  with all_in_segment [of "\<lambda>it. \<not> is_overflow_code it" M B "path ! i" H]
    no_overflow_code_locked [of a]
  show ?thesis by (simp add: prog_def [symmetric] eq M_def)
qed

lemma unsynchronized_no_lock:
  "list_all (\<lambda>it. \<not> is_lock it) (generate_normal_entry_items ic t p a False)"
  by (simp add: generate_normal_entry_items_def generate_stack_overflow_check_code_def
      entry_part_defs entry_check_not_synchronized_def is_lock_def)

text \<open>
  C5. In the entry code generated for a synchronized method, for every setting of the
  flags: \<open>lock_method\<close> is emitted, and every item of the stack-overflow check and of
  the invocation-counter check is emitted before every item of \<open>lock_method\<close>.  On
  every execution path from the entry point to an item of \<open>lock_method\<close> control has
  passed the binding of \<open>after_frame_check\<close> (the stack-overflow check has let the
  frame through) and, when the counter is incremented at all, the counter check; and from
  that item on the path never again is in the stack-overflow check, the counter check or
  the handlers at \<open>profile_method\<close> and \<open>invocation_counter_overflow\<close>.  The entry
  code for an unsynchronized method has no item of \<open>lock_method\<close>.
\<close>

theorem lock_after_overflow_checks:
  "(\<exists>j. j < length (generate_normal_entry_code flags True)
        \<and> is_lock (generate_normal_entry_code flags True ! j))
   \<and> (\<forall>i j. i < length (generate_normal_entry_code flags True)
            \<and> j < length (generate_normal_entry_code flags True)
            \<and> is_overflow_check (generate_normal_entry_code flags True ! i)
            \<and> is_lock (generate_normal_entry_code flags True ! j) \<longrightarrow> i < j)
   \<and> (\<forall>path k. is_path (generate_normal_entry_code flags True) path
            \<and> path \<noteq> [] \<and> hd path = 0 \<and> k < length path
            \<and> is_lock (generate_normal_entry_code flags True ! (path ! k)) \<longrightarrow>
          (\<exists>i. i < k \<and> generate_normal_entry_code flags True ! (path ! i) =
                  (Stack_overflow_check, Bind after_frame_check))
          \<and> (inc_counter flags \<longrightarrow>
               (\<exists>i. i < k \<and> is_counter_incr (generate_normal_entry_code flags True ! (path ! i))))
          \<and> (\<forall>i. k \<le> i \<and> i < length path \<longrightarrow>
                \<not> is_overflow_code (generate_normal_entry_code flags True ! (path ! i))))
   \<and> (\<forall>j. j < length (generate_normal_entry_code flags False) \<longrightarrow>
          \<not> is_lock (generate_normal_entry_code flags False ! j))"
proof (intro conjI allI impI)
  let ?ic = "inc_counter flags"
  let ?t = "TieredCompilation_flag flags"
  let ?p = "ProfileInterpreter_flag flags"
  let ?a = "ASSERT_build flags"
  have len: "length (generate_normal_entry_items ?ic ?t ?p ?a True) =
     length (entry_to_lock ?ic ?t ?p ?a) + length (lock_method_code ?a)
     + length (entry_start_execution ?a @ entry_invocation_counter_overflow ?ic ?p)"
    by (simp add: entry_split_lock)
  have "is_lock (generate_normal_entry_items ?ic ?t ?p ?a True ! length (entry_to_lock ?ic ?t ?p ?a))"
    using all_in_segment [of is_lock "lock_method_code ?a" "entry_to_lock ?ic ?t ?p ?a"
        "length (entry_to_lock ?ic ?t ?p ?a)"
        "entry_start_execution ?a @ entry_invocation_counter_overflow ?ic ?p"]
      lock_method_nonempty [of ?a]
    by (simp add: entry_split_lock)
  moreover have "length (entry_to_lock ?ic ?t ?p ?a)
                 < length (generate_normal_entry_items ?ic ?t ?p ?a True)"
    using lock_method_nonempty(1) [of ?a] unfolding len by simp
  ultimately show "\<exists>j. j < length (generate_normal_entry_code flags True)
        \<and> is_lock (generate_normal_entry_code flags True ! j)"
    unfolding generate_normal_entry_code_def by blast
next
  fix i j
  assume "i < length (generate_normal_entry_code flags True)
            \<and> j < length (generate_normal_entry_code flags True)
            \<and> is_overflow_check (generate_normal_entry_code flags True ! i)
            \<and> is_lock (generate_normal_entry_code flags True ! j)"
  hence "i < length (entry_to_lock (inc_counter flags) (TieredCompilation_flag flags)
                       (ProfileInterpreter_flag flags) (ASSERT_build flags))"
    "length (entry_to_lock (inc_counter flags) (TieredCompilation_flag flags)
                       (ProfileInterpreter_flag flags) (ASSERT_build flags)) \<le> j"
    unfolding generate_normal_entry_code_def
    using overflow_check_position lock_position by blast+
  thus "i < j" by simp
next
  fix path k
  assume h: "is_path (generate_normal_entry_code flags True) path
            \<and> path \<noteq> [] \<and> hd path = 0 \<and> k < length path
            \<and> is_lock (generate_normal_entry_code flags True ! (path ! k))"
  hence start: "path ! 0 = 0" by (cases path) auto
  from h start show "\<exists>i. i < k \<and> generate_normal_entry_code flags True ! (path ! i) =
                  (Stack_overflow_check, Bind after_frame_check)"
    unfolding generate_normal_entry_code_def using passes_frame_check by blast
  {
    assume "inc_counter flags"
    hence ic: "inc_counter flags = True" by simp
    from h start show "\<exists>i. i < k
        \<and> is_counter_incr (generate_normal_entry_code flags True ! (path ! i))"
      unfolding generate_normal_entry_code_def ic using passes_counter_incr by blast
  }
  {
    fix i
    assume "k \<le> i \<and> i < length path"
    with h show "\<not> is_overflow_code (generate_normal_entry_code flags True ! (path ! i))"
      unfolding generate_normal_entry_code_def using no_overflow_code_after_lock by blast
  }
next
  fix j
  assume "j < length (generate_normal_entry_code flags False)"
  thus "\<not> is_lock (generate_normal_entry_code flags False ! j)"
    unfolding generate_normal_entry_code_def
    using unsynchronized_no_lock [of "inc_counter flags" "TieredCompilation_flag flags"
        "ProfileInterpreter_flag flags" "ASSERT_build flags"]
    by (simp add: list_all_length)
qed

text \<open>
  The path through the overflow handler in the evaluation setting: the lock item at
  position 44 is the 33rd step, after the binding of \<open>after_frame_check\<close> and the counter
  check, and the rest of the path stays out of the overflow code.
\<close>

theorem lock_after_overflow_checks_witness:
  "is_path (generate_normal_entry_code flags0 True) path0
   \<and> path0 \<noteq> [] \<and> hd path0 = 0 \<and> 32 < length path0
   \<and> is_lock (generate_normal_entry_code flags0 True ! (path0 ! 32))
   \<and> inc_counter flags0
   \<and> is_overflow_check (generate_normal_entry_code flags0 True ! 39)
   \<and> (\<exists>i. i < 32 \<and> generate_normal_entry_code flags0 True ! (path0 ! i) =
              (Stack_overflow_check, Bind after_frame_check))
   \<and> (\<exists>i. i < 32 \<and> is_counter_incr (generate_normal_entry_code flags0 True ! (path0 ! i)))
   \<and> \<not> is_overflow_code (generate_normal_entry_code flags0 True ! (path0 ! 45))"
proof -
  have p: "is_path (generate_normal_entry_code flags0 True) path0"
    by code_simp
  have l: "path0 \<noteq> []" "hd path0 = 0" "32 < length path0" "32 \<le> (45 :: nat)"
    "45 < length path0"
    by (simp_all add: path0_def)
  have k: "is_lock (generate_normal_entry_code flags0 True ! (path0 ! 32))"
    by code_simp
  have c: "inc_counter flags0"
    by (simp add: inc_counter_def flags0_def)
  have o: "is_overflow_check (generate_normal_entry_code flags0 True ! 39)"
    by code_simp
  from lock_after_overflow_checks [of flags0] p l k c
  have "(\<exists>i. i < 32 \<and> generate_normal_entry_code flags0 True ! (path0 ! i) =
              (Stack_overflow_check, Bind after_frame_check))
     \<and> (\<exists>i. i < 32 \<and> is_counter_incr (generate_normal_entry_code flags0 True ! (path0 ! i)))
     \<and> \<not> is_overflow_code (generate_normal_entry_code flags0 True ! (path0 ! 45))"
    by blast
  with p l k c o show ?thesis by simp
qed

end
